theory Spec2Isabelle
  imports Main "HOL-Library.AList"
begin

section \<open>Values handled by the engine\<close>

text \<open>
  The engine is TypeScript; what flows through node configurations, block results and the
  output store is plain JavaScript data. A record (\<open>Record<string, unknown>\<close>) is an
  association list in the order in which JavaScript lists the keys of an object, read
  with \<open>map_of\<close> and written with \<open>assign\<close>. A number \<open>JNum n\<close> is the integer \<open>n\<close>, meant
  for the safe integers (below \<open>2\<^sup>5\<^sup>3\<close> in absolute value), where \<open>String(n)\<close> is the decimal
  numeral; other numbers are not modelled. A string is the list of its code units, each
  below 256. Of data records and of the output store only own properties are modelled:
  what they inherit from \<open>Object.prototype\<close> (\<open>toString\<close>, \<open>constructor\<close> and the like) is
  left out, so their keys are understood not to be among those names. The alias map,
  further down, is modelled with what it inherits.
\<close>

datatype jsval =
    JUndefined
  | JNull
  | JBool bool
  | JNum int
  | JStr string
  | JArr "jsval list"
  | JObj "(string \<times> jsval) list"

type_synonym jobj = "(string \<times> jsval) list"

subsection \<open>Strings\<close>

definition digits :: string where
  "digits = ''0123456789''"

fun show_nat :: "nat \<Rightarrow> string" where
  "show_nat n = (if n < 10 then [digits ! n] else show_nat (n div 10) @ [digits ! (n mod 10)])"

declare show_nat.simps [simp del]

definition show_int :: "int \<Rightarrow> string" where
  "show_int i = (if i < 0 then CHR ''-'' # show_nat (nat (- i)) else show_nat (nat i))"

text \<open>
  What \<open>\s\<close> and \<open>trim()\<close> take for white space, among the code units below 256: tab, line
  feed, vertical tab, form feed, carriage return, space and the no-break space.
\<close>

definition isWhitespace :: "char \<Rightarrow> bool" where
  "isWhitespace c \<longleftrightarrow>
     c \<in> set [CHR 0x09, CHR 0x0A, CHR 0x0B, CHR 0x0C, CHR 0x0D, CHR '' '', CHR 0xA0]"

definition trim :: "string \<Rightarrow> string" where
  "trim s = rev (dropWhile isWhitespace (rev (dropWhile isWhitespace s)))"

text \<open>\<open>s.split(c)\<close>: never empty, \<open>''''\<close> splits into one empty part.\<close>

fun splitOn :: "char \<Rightarrow> string \<Rightarrow> string list" where
  "splitOn c [] = [[]]"
| "splitOn c (x # xs) =
     (let r = splitOn c xs in if x = c then [] # r else (x # hd r) # tl r)"

fun joinWith :: "string \<Rightarrow> string list \<Rightarrow> string" where
  "joinWith sep [] = []"
| "joinWith sep [p] = p"
| "joinWith sep (p # q # ps) = p @ sep @ joinWith sep (q # ps)"

subsection \<open>Records\<close>

text \<open>
  A key is an array index when it is the canonical decimal numeral (digits only, no
  leading zero) of a number below \<open>2\<^sup>3\<^sup>2 - 1\<close>. An object lists such keys first, in ascending
  order, and its other keys after them in the order in which they were created. Canonical
  numerals are compared as numbers by comparing their lengths and then their digits.
\<close>

definition digitLess :: "char \<Rightarrow> char \<Rightarrow> bool" where
  "digitLess x y \<longleftrightarrow> x \<in> set (takeWhile (\<lambda>d. d \<noteq> y) digits)"

fun digitsLess :: "string \<Rightarrow> string \<Rightarrow> bool" where
  "digitsLess (x # xs) (y # ys) = (digitLess x y \<or> (x = y \<and> digitsLess xs ys))"
| "digitsLess xs ys = False"

definition numeralLess :: "string \<Rightarrow> string \<Rightarrow> bool" where
  "numeralLess a b \<longleftrightarrow> length a < length b \<or> (length a = length b \<and> digitsLess a b)"

definition isArrayIndex :: "string \<Rightarrow> bool" where
  "isArrayIndex k \<longleftrightarrow>
     k \<noteq> [] \<and> list_all (\<lambda>c. c \<in> set digits) k
     \<and> (if hd k = CHR ''0'' then tl k = [] else True)
     \<and> numeralLess k ''4294967295''"

fun insertIndexed :: "string \<Rightarrow> 'a \<Rightarrow> (string \<times> 'a) list \<Rightarrow> (string \<times> 'a) list" where
  "insertIndexed k v [] = [(k, v)]"
| "insertIndexed k v (e # es) =
     (if isArrayIndex (fst e) \<and> numeralLess (fst e) k then e # insertIndexed k v es
      else (k, v) # e # es)"

text \<open>
  \<open>obj[k] = v\<close>: a key that is there keeps its place; a new array index goes to its place
  among the array indices; any other new key goes to the end.
\<close>

definition assign :: "string \<Rightarrow> 'a \<Rightarrow> (string \<times> 'a) list \<Rightarrow> (string \<times> 'a) list" where
  "assign k v obj =
     (if isArrayIndex k \<and> k \<notin> set (map fst obj) then insertIndexed k v obj
      else AList.update k v obj)"

text \<open>\<open>{...a, ...b}\<close>: the properties of \<open>a\<close>, then those of \<open>b\<close>, assigned one by one.\<close>

definition spread :: "jobj \<Rightarrow> jobj \<Rightarrow> jobj" where
  "spread a b = fold (\<lambda>(k, v). assign k v) b a"

text \<open>\<open>obj[k]\<close> on a record: \<open>undefined\<close> when the key is absent.\<close>

definition getProp :: "jobj \<Rightarrow> string \<Rightarrow> jsval" where
  "getProp obj k = (case map_of obj k of Some v \<Rightarrow> v | None \<Rightarrow> JUndefined)"

subsection \<open>Truthiness, property access, \<open>String(v)\<close>\<close>

fun truthy :: "jsval \<Rightarrow> bool" where
  "truthy JUndefined = False"
| "truthy JNull = False"
| "truthy (JBool b) = b"
| "truthy (JNum n) = (n \<noteq> 0)"
| "truthy (JStr s) = (s \<noteq> [])"
| "truthy (JArr xs) = True"
| "truthy (JObj kvs) = True"

text \<open>\<open>typeof v === 'object'\<close> (which \<open>null\<close> satisfies too).\<close>

fun isObjectType :: "jsval \<Rightarrow> bool" where
  "isObjectType JNull = True"
| "isObjectType (JArr xs) = True"
| "isObjectType (JObj kvs) = True"
| "isObjectType v = False"

text \<open>
  An index property name is the canonical decimal numeral of a position; arrays and
  strings answer those and \<open>length\<close>.
\<close>

definition indexOf :: "nat \<Rightarrow> string \<Rightarrow> nat option" where
  "indexOf len p = find (\<lambda>i. show_nat i = p) [0..<len]"

text \<open>
  \<open>cur[p]\<close> for any value. Numbers and booleans have no own properties. On \<open>null\<close> and
  \<open>undefined\<close> JavaScript throws; \<open>getByPath\<close> tests \<open>!cur\<close> before every access, so
  that case is never evaluated there.
\<close>

fun member :: "jsval \<Rightarrow> string \<Rightarrow> jsval" where
  "member (JObj kvs) p = getProp kvs p"
| "member (JArr xs) p =
     (case indexOf (length xs) p of
        Some i \<Rightarrow> xs ! i
      | None \<Rightarrow> if p = ''length'' then JNum (int (length xs)) else JUndefined)"
| "member (JStr s) p =
     (case indexOf (length s) p of
        Some i \<Rightarrow> JStr [s ! i]
      | None \<Rightarrow> if p = ''length'' then JNum (int (length s)) else JUndefined)"
| "member v p = JUndefined"

fun toStr :: "jsval \<Rightarrow> string" where
  "toStr JUndefined = ''undefined''"
| "toStr JNull = ''null''"
| "toStr (JBool b) = (if b then ''true'' else ''false'')"
| "toStr (JNum n) = show_int n"
| "toStr (JStr s) = s"
| "toStr (JArr xs) =
     joinWith '','' (map (\<lambda>x. if x = JNull \<or> x = JUndefined then [] else toStr x) xs)"
| "toStr (JObj kvs) = ''[object Object]''"

text \<open>\<open>v != null ? String(v) : ''\<close>\<close>

definition render :: "jsval \<Rightarrow> string" where
  "render v = (if v = JNull \<or> v = JUndefined then [] else toStr v)"

section \<open>Template resolver\<close>

text \<open>
  The alias map built at the start of a run. Its own properties bind a name to a node
  id, or to \<open>null\<close>, the ambiguity marker. It is created as \<open>{}\<close>, so as long as its
  prototype is \<open>Object.prototype\<close> it also answers the names of the members found there.
\<close>

datatype alias_target = Target string | Ambiguous

record alias_map =
  bound :: "string \<rightharpoonup> alias_target"
  inherits :: bool

definition emptyAliasMap :: alias_map where
  "emptyAliasMap = \<lparr>bound = Map.empty, inherits = True\<rparr>"

definition objectPrototypeNames :: "string list" where
  "objectPrototypeNames =
     [''constructor'', ''hasOwnProperty'', ''isPrototypeOf'', ''propertyIsEnumerable'',
      ''toLocaleString'', ''toString'', ''valueOf'', ''__defineGetter__'', ''__defineSetter__'',
      ''__lookupGetter__'', ''__lookupSetter__'', ''__proto__'']"

text \<open>
  \<open>aliasMap[name]\<close>: an own property, else an inherited member, else \<open>undefined\<close>.
\<close>

datatype alias_lookup = Missing | Own alias_target | Inherited string

definition aliasGet :: "alias_map \<Rightarrow> string \<Rightarrow> alias_lookup" where
  "aliasGet aliasMap name =
     (case bound aliasMap name of
        Some t \<Rightarrow> Own t
      | None \<Rightarrow> if inherits aliasMap \<and> name \<in> set objectPrototypeNames then Inherited name else Missing)"

text \<open>
  \<open>aliasMap[name] = value\<close>. Assignment creates or overwrites an own property, except where
  it finds the inherited accessor \<open>__proto__\<close>: its setter takes the prototype away when
  given \<open>null\<close>, and does nothing when given a string.
\<close>

definition aliasSet :: "alias_map \<Rightarrow> string \<Rightarrow> alias_target \<Rightarrow> alias_map" where
  "aliasSet aliasMap name t =
     (if name = ''__proto__'' \<and> inherits aliasMap \<and> bound aliasMap name = None
      then (case t of Ambiguous \<Rightarrow> aliasMap\<lparr>inherits := False\<rparr> | Target i \<Rightarrow> aliasMap)
      else aliasMap\<lparr>bound := (bound aliasMap)(name \<mapsto> t)\<rparr>)"

text \<open>
  \<open>String(m)\<close> for an inherited member \<open>m\<close>, which is the key under which the resolver then
  looks in the output store: the object \<open>Object.prototype\<close> for \<open>__proto__\<close>, a built-in
  function for the others (printed as V8 prints it).
\<close>

definition inheritedText :: "string \<Rightarrow> string" where
  "inheritedText name =
     (if name = ''__proto__'' then ''[object Object]''
      else ''function '' @ (if name = ''constructor'' then ''Object'' else name) @ ''() { [native code] }'')"

type_synonym store = "(string \<times> jobj) list"

text \<open>
  \<open>getByPath\<close>: the loop over the parts of the path leaves as soon as the current value
  is falsy, and otherwise reads the next key from whatever the current value is (both
  branches of the source's inner conditional assign \<open>next\<close>).
\<close>

fun walkPath :: "jsval \<Rightarrow> string list \<Rightarrow> jsval" where
  "walkPath cur [] = cur"
| "walkPath cur (p # ps) = (if \<not> truthy cur then JUndefined else walkPath (member cur p) ps)"

definition getByPath :: "jsval \<Rightarrow> string \<Rightarrow> jsval" where
  "getByPath obj path =
     (if \<not> truthy obj \<or> \<not> isObjectType obj then JUndefined
      else walkPath obj (splitOn CHR ''.'' path))"

text \<open>
  The replacement callback of \<open>resolveTemplatesDeep\<close>, for one captured expression.
  \<open>prevId\<close> is the source of the only incoming edge, if there is exactly one; the test
  \<open>!prevId\<close> also rejects the empty string.
\<close>

definition resolveExpr ::
  "(string \<rightharpoonup> string) \<Rightarrow> string option \<Rightarrow> store \<Rightarrow> alias_map \<Rightarrow> string \<Rightarrow> string" where
  "resolveExpr env prevId nodeOutputs aliasMap expr =
     (let raw = trim expr;
          parts = splitOn CHR ''.'' raw;
          root = hd parts;
          path = joinWith ''.'' (tl parts)
      in if root = [] then []
         else if root = ''env'' then
           (if path \<noteq> [] then (case env path of Some v \<Rightarrow> v | None \<Rightarrow> []) else [])
         else if root = ''prev'' then
           (case prevId of
              None \<Rightarrow> []
            | Some p \<Rightarrow>
                if p = [] then []
                else render
                  (if path \<noteq> []
                   then getByPath (case map_of nodeOutputs p of Some out \<Rightarrow> JObj out | None \<Rightarrow> JObj []) path
                   else (case map_of nodeOutputs p of Some out \<Rightarrow> JObj out | None \<Rightarrow> JUndefined)))
         else
           (case (case aliasGet aliasMap root of
                    Missing \<Rightarrow> Some root
                  | Own (Target i) \<Rightarrow> Some i
                  | Own Ambiguous \<Rightarrow> None
                  | Inherited m \<Rightarrow> Some (inheritedText m)) of
              None \<Rightarrow> []
            | Some targetId \<Rightarrow>
                (case map_of nodeOutputs targetId of
                   None \<Rightarrow> []
                 | Some outputs \<Rightarrow>
                     render (if path \<noteq> [] then getByPath (JObj outputs) path else JObj outputs))))"

text \<open>
  One attempt of the pattern \<open>\{\{\s*([^}]+)\s*\}\}\<close> at the head of a string. Between the
  opening braces and the next \<open>}\<close> every character is matched by \<open>\s*([^}]+)\s*\<close>, so the
  attempt succeeds exactly when that stretch is not empty and \<open>}}\<close> follows it. The group
  captures the stretch without its leading white space (its last character when it is
  all white space). The result is the captured text and what follows the match.
\<close>

definition matchTemplate :: "string \<Rightarrow> (string \<times> string) option" where
  "matchTemplate s =
     (if take 2 s = ''{{'' then
        (let inner = takeWhile (\<lambda>c. c \<noteq> CHR ''}'') (drop 2 s);
             after = dropWhile (\<lambda>c. c \<noteq> CHR ''}'') (drop 2 s);
             stripped = dropWhile isWhitespace inner
         in if inner \<noteq> [] \<and> take 2 after = ''}}''
            then Some (if stripped = [] then [last inner] else stripped, drop 2 after)
            else None)
      else None)"

text \<open>\<open>val.replace(/.../g, callback)\<close>: leftmost matches, scanning on after each one.\<close>

function replaceTemplates :: "(string \<Rightarrow> string) \<Rightarrow> string \<Rightarrow> string" where
  "replaceTemplates f [] = []"
| "replaceTemplates f (c # cs) =
     (case matchTemplate (c # cs) of
        Some (expr, rest) \<Rightarrow> f expr @ replaceTemplates f rest
      | None \<Rightarrow> c # replaceTemplates f cs)"
  by pat_completeness auto
termination
proof (relation "measure (\<lambda>(f, s). length s)")
  fix f :: "string \<Rightarrow> string" and c cs x2 expr rest
  assume "matchTemplate (c # cs) = Some x2" and "(expr, rest) = x2"
  then have "rest = drop 2 (dropWhile (\<lambda>c. c \<noteq> CHR ''}'') (drop 2 (c # cs)))"
    by (auto simp: matchTemplate_def Let_def split: if_splits)
  moreover have "length (dropWhile (\<lambda>c. c \<noteq> CHR ''}'') (drop 2 (c # cs))) \<le> length (drop 2 (c # cs))"
    by (rule length_dropWhile_le)
  ultimately show "((f, rest), f, c # cs) \<in> measure (\<lambda>(f, s). length s)"
    by simp
qed simp_all

fun resolveTemplatesDeep ::
  "(string \<rightharpoonup> string) \<Rightarrow> string option \<Rightarrow> store \<Rightarrow> alias_map \<Rightarrow> jsval \<Rightarrow> jsval" where
  "resolveTemplatesDeep env prevId nodeOutputs aliasMap (JStr s) =
     JStr (replaceTemplates (resolveExpr env prevId nodeOutputs aliasMap) s)"
| "resolveTemplatesDeep env prevId nodeOutputs aliasMap (JArr xs) =
     JArr (map (resolveTemplatesDeep env prevId nodeOutputs aliasMap) xs)"
| "resolveTemplatesDeep env prevId nodeOutputs aliasMap (JObj kvs) =
     JObj (map (\<lambda>kv. (fst kv, resolveTemplatesDeep env prevId nodeOutputs aliasMap (snd kv))) kvs)"
| "resolveTemplatesDeep env prevId nodeOutputs aliasMap v = v"

section \<open>Workflows, executions and the engine's surroundings\<close>

text \<open>
  The types of \<open>../types\<close> as the engine uses them. Wall-clock fields (\<open>startTime\<close>,
  \<open>endTime\<close>, \<open>duration\<close>, \<open>timestamp\<close>) and generated identifiers (the execution's and
  the log entries' \<open>id\<close>) are left out: they are read from the clock and from
  \<open>Math.random\<close>, and decide nothing in the engine.
\<close>

record workflow_node =
  node_id :: string
  node_type :: string
  node_data :: jobj

record workflow_edge =
  edge_id :: string
  edge_source :: string
  edge_target :: string

record workflow =
  wf_id :: string
  wf_name :: string
  starterId :: string
  nodes :: "workflow_node list"
  edges :: "workflow_edge list"

datatype wf_status = WRunning | WSuccess | WError | WCancelled

datatype node_status = NRunning | NSuccess | NError

datatype log_level = Info | Warn | Err

record execution_log =
  log_nodeId :: "string option"
  log_message :: string
  log_level :: log_level

record node_execution =
  ne_nodeId :: string
  ne_status :: node_status
  ne_outputs :: "jobj option"
  ne_error :: "string option"

record workflow_execution =
  exec_workflowId :: string
  status :: wf_status
  logs :: "execution_log list"
  nodeExecutions :: "(string \<times> node_execution) list"

record exec_options =
  onlyNodeId :: "string option"
  existingExecution :: "workflow_execution option"

text \<open>What a \<open>throw\<close> carries: an \<open>Error\<close> with its message, or any other value.\<close>

datatype thrown = ErrorObj string | NonError

definition errorMessage :: "thrown \<Rightarrow> string" where
  "errorMessage e = (case e of ErrorObj m \<Rightarrow> m | NonError \<Rightarrow> ''Unknown error'')"

text \<open>
  The two subscribers handed to the constructor. A subscriber is the caller's code, run
  synchronously; it returns nothing. What reaches the engine from a call is whether it
  called \<open>stop()\<close> on the engine and whether it threw, which is taken to depend on what
  the subscriber is given. A subscriber that was not supplied does neither.
\<close>

record reaction =
  called_stop :: bool
  threw :: "thrown option"

record engine =
  onLog :: "execution_log \<Rightarrow> reaction"
  onNodeUpdate :: "string \<Rightarrow> node_execution \<Rightarrow> reaction"

text \<open>
  What \<open>executeWorkflow\<close> mutates while it runs: the execution being assembled, the
  \<open>nodeOutputs\<close> table, and the \<open>aborted\<close> flag of the run's \<open>AbortController\<close>.
\<close>

record run_state =
  execution :: workflow_execution
  nodeOutputs :: store
  aborted :: bool

text \<open>
  A step either completes or throws; in both cases the mutations made so far stay, so
  both cases carry the state.
\<close>

datatype res = Ok run_state | Raised thrown run_state

definition andThen :: "res \<Rightarrow> (run_state \<Rightarrow> res) \<Rightarrow> res" where
  "andThen r f = (case r of Ok st \<Rightarrow> f st | Raised e st \<Rightarrow> Raised e st)"

fun stateOf :: "res \<Rightarrow> run_state" where
  "stateOf (Ok st) = st"
| "stateOf (Raised e st) = st"

text \<open>
  The \<open>RunContext\<close> given to a block, and what awaiting \<open>blockConfig.run(context)\<close>
  amounts to: the \<open>setNodeOutput\<close> calls and \<open>log\<close> lines the block made, in order,
  whether it returned a value or threw, and whether \<open>stop()\<close> was called on the engine
  while the engine was suspended on it (the only point where the engine yields). How a
  block reacts to a throwing log subscriber is part of its own outcome. \<open>fetch\<close> and the
  abort signal act on the outside world only.
\<close>

record run_context =
  ctx_workflowId :: string
  ctx_nodeId :: string
  ctx_inputs :: jsval
  ctx_env :: "string \<rightharpoonup> string"
  ctx_nodeOutputs :: store
  ctx_prevId :: "string option"
  ctx_isSingleNodeExecution :: bool

datatype completion = Returned jsval | Threw thrown

record run_outcome =
  out_writes :: "(string \<times> jsval) list"
  out_logged :: "string list"
  out_result :: completion
  out_stopped :: bool

type_synonym block = "run_context \<Rightarrow> run_outcome"

text \<open>\<open>getBlockConfig\<close>: \<open>None\<close> for a type that is not registered or has no \<open>run\<close>.\<close>

type_synonym registry = "string \<Rightarrow> block option"

definition presentId :: "string option \<Rightarrow> bool" where
  "presentId i = (case i of Some s \<Rightarrow> s \<noteq> [] | None \<Rightarrow> False)"

definition getNodeOutput :: "run_context \<Rightarrow> string \<Rightarrow> string option \<Rightarrow> jsval" where
  "getNodeOutput ctx nodeId key =
     (if nodeId = ''*'' then JObj (map (\<lambda>kv. (fst kv, JObj (snd kv))) (ctx_nodeOutputs ctx))
      else
        (let nid = (case ctx_prevId ctx of
                      Some p \<Rightarrow> if nodeId = ''prev'' \<and> p \<noteq> [] then p else nodeId
                    | None \<Rightarrow> nodeId);
             outputs = map_of (ctx_nodeOutputs ctx) nid
         in if presentId key
            then (case outputs of Some out \<Rightarrow> getProp out (case key of Some k \<Rightarrow> k | None \<Rightarrow> [])
                  | None \<Rightarrow> JUndefined)
            else (case outputs of Some out \<Rightarrow> JObj out | None \<Rightarrow> JUndefined)))"

definition setNodeOutput :: "string \<Rightarrow> store \<Rightarrow> string \<times> jsval \<Rightarrow> store" where
  "setNodeOutput nid outs kv =
     assign nid
       (assign (fst kv) (snd kv) (case map_of outs nid of Some out \<Rightarrow> out | None \<Rightarrow> []))
       outs"

section \<open>The execution engine\<close>

text \<open>\<open>stop()\<close>, as far as a subscriber's call of it goes: the abort flag is up afterwards.\<close>

definition heard :: "reaction \<Rightarrow> run_state \<Rightarrow> run_state" where
  "heard r st = st\<lparr>aborted := (aborted st \<or> called_stop r)\<rparr>"

text \<open>Log messages are given without the pictograph that opens each of them.\<close>

definition log :: "engine \<Rightarrow> run_state \<Rightarrow> log_level \<Rightarrow> string \<Rightarrow> string option \<Rightarrow> res" where
  "log eng st lvl msg nid =
     (let entry = \<lparr>log_nodeId = nid, log_message = msg, log_level = lvl\<rparr>;
          st' = heard (onLog eng entry)
                  (st\<lparr>execution := (execution st)\<lparr>logs := logs (execution st) @ [entry]\<rparr>\<rparr>)
      in case threw (onLog eng entry) of None \<Rightarrow> Ok st' | Some e \<Rightarrow> Raised e st')"

definition validateWorkflow :: "workflow \<Rightarrow> thrown option" where
  "validateWorkflow wfl =
     (if nodes wfl = [] then Some (ErrorObj ''Workflow has no nodes'')
      else case find (\<lambda>node. node_id node = starterId wfl) (nodes wfl) of
             None \<Rightarrow> Some (ErrorObj ''Start node not found'')
           | Some startNode \<Rightarrow> None)"

definition getConnectedNodes :: "workflow \<Rightarrow> string \<Rightarrow> workflow_node list" where
  "getConnectedNodes wfl fromNodeId =
     (let connectedNodeIds = map edge_target (filter (\<lambda>edge. edge_source edge = fromNodeId) (edges wfl))
      in filter (\<lambda>node. node_id node \<in> set connectedNodeIds) (nodes wfl))"

subsection \<open>Alias map\<close>

definition nullish :: "jsval \<Rightarrow> bool" where
  "nullish v \<longleftrightarrow> v = JNull \<or> v = JUndefined"

definition aliasName :: "workflow_node \<Rightarrow> string" where
  "aliasName n =
     trim (toStr
       (if \<not> nullish (getProp (node_data n) ''alias'') then getProp (node_data n) ''alias''
        else if \<not> nullish (getProp (node_data n) ''refName'') then getProp (node_data n) ''refName''
        else JStr (node_type n)))"

text \<open>
  One pass of the loop over the nodes. The table \<open>seen\<close> that the source fills alongside
  is never read.
\<close>

definition aliasStep :: "alias_map \<Rightarrow> workflow_node \<Rightarrow> alias_map" where
  "aliasStep aliasMap n =
     (let alias = aliasName n
      in if alias = [] then aliasMap
         else if aliasGet aliasMap alias = Missing then aliasSet aliasMap alias (Target (node_id n))
         else aliasSet aliasMap alias Ambiguous)"

definition buildAliasMap :: "workflow_node list \<Rightarrow> alias_map" where
  "buildAliasMap ns = foldl aliasStep emptyAliasMap ns"

subsection \<open>Executing one node\<close>

definition prevIdOf :: "workflow \<Rightarrow> string \<Rightarrow> string option" where
  "prevIdOf wfl nid =
     (let incoming = map edge_source (filter (\<lambda>e. edge_target e = nid) (edges wfl))
      in if length incoming = 1 then Some (hd incoming) else None)"

text \<open>A returned plain object is taken as it is; anything else is wrapped.\<close>

definition returnOutputs :: "jsval \<Rightarrow> jobj" where
  "returnOutputs result = (case result of JObj kvs \<Rightarrow> kvs | _ \<Rightarrow> [(''value'', result)])"

definition slotOf :: "store \<Rightarrow> string \<Rightarrow> jobj" where
  "slotOf outs nid = (case map_of outs nid of Some out \<Rightarrow> out | None \<Rightarrow> [])"

text \<open>
  \<open>execution.nodeExecutions[node.id]\<close> holds the node's record; the source mutates that
  record in place, the model writes every new version of it back under the same key.
\<close>

definition putNodeExecution :: "string \<Rightarrow> node_execution \<Rightarrow> run_state \<Rightarrow> run_state" where
  "putNodeExecution nid ne st =
     st\<lparr>execution := (execution st)
          \<lparr>nodeExecutions := assign nid ne (nodeExecutions (execution st))\<rparr>\<rparr>"

definition blockLog :: "string \<Rightarrow> execution_log list \<Rightarrow> string \<Rightarrow> execution_log list" where
  "blockLog nid ls msg = ls @ [\<lparr>log_nodeId = Some nid, log_message = msg, log_level = Info\<rparr>]"

text \<open>
  The state after the block's run was awaited: its writes are in its own slot of
  \<open>nodeOutputs\<close>, its lines are in the log, and the abort flag is up if \<open>stop()\<close> came.
\<close>

definition afterRun :: "workflow_node \<Rightarrow> run_outcome \<Rightarrow> run_state \<Rightarrow> run_state" where
  "afterRun node outcome st =
     st\<lparr>execution := (execution st)
          \<lparr>logs := foldl (blockLog (node_id node)) (logs (execution st)) (out_logged outcome)\<rparr>,
        nodeOutputs := foldl (setNodeOutput (node_id node)) (nodeOutputs st) (out_writes outcome),
        aborted := (aborted st \<or> out_stopped outcome)\<rparr>"

definition makeContext ::
  "workflow \<Rightarrow> (string \<rightharpoonup> string) \<Rightarrow> alias_map \<Rightarrow> string option \<Rightarrow> workflow_node \<Rightarrow> run_state
     \<Rightarrow> run_context" where
  "makeContext wfl env aliasMap singleNodeId node st =
     \<lparr>ctx_workflowId = wf_id wfl,
      ctx_nodeId = node_id node,
      ctx_inputs = resolveTemplatesDeep env (prevIdOf wfl (node_id node)) (nodeOutputs st) aliasMap
                     (JObj (node_data node)),
      ctx_env = env,
      ctx_nodeOutputs = nodeOutputs st,
      ctx_prevId = prevIdOf wfl (node_id node),
      ctx_isSingleNodeExecution = presentId singleNodeId\<rparr>"

text \<open>The statements after \<open>await blockConfig.run(context)\<close>, for a returned \<open>result\<close>.\<close>

definition recordResult ::
  "engine \<Rightarrow> workflow_node \<Rightarrow> node_execution \<Rightarrow> jsval \<Rightarrow> run_state \<Rightarrow> res" where
  "recordResult eng node nodeExecution result st =
     (let slot = slotOf (nodeOutputs st) (node_id node);
          done = nodeExecution\<lparr>ne_status := NSuccess,
                               ne_outputs := Some (spread slot (returnOutputs result))\<rparr>;
          st1 = putNodeExecution (node_id node) done st;
          st2 = (case result of
                   JObj kvs \<Rightarrow> st1\<lparr>nodeOutputs := assign (node_id node) (spread slot kvs) (nodeOutputs st1)\<rparr>
                 | _ \<Rightarrow> st1)
      in if node_type node \<noteq> ''starter''
         then log eng st2 Info (node_type node @ '' completed'') (Some (node_id node))
         else Ok st2)"

text \<open>The \<open>try\<close> block of \<open>executeNode\<close>.\<close>

definition nodeBody ::
  "engine \<Rightarrow> registry \<Rightarrow> workflow \<Rightarrow> (string \<rightharpoonup> string) \<Rightarrow> alias_map \<Rightarrow> string option
     \<Rightarrow> workflow_node \<Rightarrow> node_execution \<Rightarrow> run_state \<Rightarrow> res" where
  "nodeBody eng reg wfl env aliasMap singleNodeId node nodeExecution st =
     andThen
       (if node_type node \<noteq> ''starter''
        then log eng st Info (node_type node @ '': '' @ node_id node) (Some (node_id node))
        else Ok st)
       (\<lambda>st1. case reg (node_type node) of
                 None \<Rightarrow>
                   Raised (ErrorObj (''Block type '' @ node_type node @ '' not found or not executable'')) st1
               | Some blockConfig \<Rightarrow>
                   (let outcome = blockConfig (makeContext wfl env aliasMap singleNodeId node st1);
                        st2 = afterRun node outcome st1
                    in case out_result outcome of
                         Threw e \<Rightarrow> Raised e st2
                       | Returned result \<Rightarrow> recordResult eng node nodeExecution result st2))"

text \<open>
  The \<open>catch\<close> block of \<open>executeNode\<close>: the node's record, as it stands, is marked failed;
  the error is logged and thrown again (a throwing log subscriber replaces it).
\<close>

definition nodeFailed :: "engine \<Rightarrow> workflow_node \<Rightarrow> node_execution \<Rightarrow> thrown \<Rightarrow> run_state \<Rightarrow> res" where
  "nodeFailed eng node nodeExecution e st =
     (let cur = (case map_of (nodeExecutions (execution st)) (node_id node) of
                   Some ne \<Rightarrow> ne | None \<Rightarrow> nodeExecution);
          failed = cur\<lparr>ne_status := NError, ne_error := Some (errorMessage e)\<rparr>
      in case log eng (putNodeExecution (node_id node) failed st) Err (''Node failed: '' @ errorMessage e)
                (Some (node_id node)) of
           Ok st' \<Rightarrow> Raised e st'
         | Raised e' st' \<Rightarrow> Raised e' st')"

definition executeNode ::
  "engine \<Rightarrow> registry \<Rightarrow> workflow \<Rightarrow> workflow_node \<Rightarrow> run_state \<Rightarrow> (string \<rightharpoonup> string)
     \<Rightarrow> alias_map \<Rightarrow> string option \<Rightarrow> res" where
  "executeNode eng reg wfl node st env aliasMap singleNodeId =
     (let nodeExecution = \<lparr>ne_nodeId = node_id node, ne_status = NRunning,
                           ne_outputs = None, ne_error = None\<rparr>;
          st1 = heard (onNodeUpdate eng (node_id node) nodeExecution)
                  (putNodeExecution (node_id node) nodeExecution st)
      in case threw (onNodeUpdate eng (node_id node) nodeExecution) of
           Some e \<Rightarrow> Raised e st1
         | None \<Rightarrow>
             (case nodeBody eng reg wfl env aliasMap singleNodeId node nodeExecution st1 of
                Raised e st2 \<Rightarrow> nodeFailed eng node nodeExecution e st2
              | Ok st2 \<Rightarrow>
                  (let finished = (case map_of (nodeExecutions (execution st2)) (node_id node) of
                                  Some ne \<Rightarrow> ne | None \<Rightarrow> nodeExecution);
                       st3 = heard (onNodeUpdate eng (node_id node) finished) st2
                   in case threw (onNodeUpdate eng (node_id node) finished) of
                        Some e \<Rightarrow> Raised e st3
                      | None \<Rightarrow> Ok st3)))"

subsection \<open>The traversal\<close>

definition setStatus :: "wf_status \<Rightarrow> run_state \<Rightarrow> run_state" where
  "setStatus s st = st\<lparr>execution := (execution st)\<lparr>status := s\<rparr>\<rparr>"

text \<open>The inner \<open>catch\<close> of \<open>executeWorkflow\<close>, around the call of \<open>executeNode\<close>.\<close>

definition nodeCatch :: "engine \<Rightarrow> workflow_node \<Rightarrow> thrown \<Rightarrow> run_state \<Rightarrow> res" where
  "nodeCatch eng node e st =
     (case log eng (setStatus WError st) Err
             (''Node '' @ [CHR 0x22] @ node_id node @ [CHR 0x22] @ '' failed: '' @ errorMessage e) None of
        Ok st' \<Rightarrow> Raised e st'
      | Raised e' st' \<Rightarrow> Raised e' st')"

definition enqueueNext :: "workflow \<Rightarrow> string option \<Rightarrow> string list \<Rightarrow> string \<Rightarrow> string list \<Rightarrow> string list" where
  "enqueueNext wfl singleNodeId visited nodeId queue =
     (if presentId singleNodeId then queue
      else queue @ map node_id (filter (\<lambda>n. node_id n \<notin> set visited) (getConnectedNodes wfl nodeId)))"

text \<open>
  The \<open>while (queue.length > 0)\<close> loop. \<open>visited\<close> is the set of ids seen, latest first; an
  id joins it when it is taken from the queue for the first time, and \<open>executeNode\<close> is
  then called on it if it is the id of a node. The loop is left with an outcome and with
  \<open>visited\<close> as it stands.
\<close>

function runQueue ::
  "engine \<Rightarrow> registry \<Rightarrow> workflow \<Rightarrow> (string \<rightharpoonup> string) \<Rightarrow> alias_map \<Rightarrow> string option
     \<Rightarrow> run_state \<Rightarrow> string list \<Rightarrow> string list \<Rightarrow> res \<times> string list" where
  "runQueue eng reg wfl env aliasMap singleNodeId st visited [] = (Ok st, visited)"
| "runQueue eng reg wfl env aliasMap singleNodeId st visited (nodeId # queue) =
     (if aborted st then (Ok (setStatus WCancelled st), visited)
      else if nodeId \<in> set visited
      then runQueue eng reg wfl env aliasMap singleNodeId st visited queue
      else case find (\<lambda>n. node_id n = nodeId) (nodes wfl) of
             None \<Rightarrow> runQueue eng reg wfl env aliasMap singleNodeId st (nodeId # visited) queue
           | Some node \<Rightarrow>
               (case executeNode eng reg wfl node st env aliasMap singleNodeId of
                  Raised e st' \<Rightarrow> (nodeCatch eng node e st', nodeId # visited)
                | Ok st' \<Rightarrow>
                    runQueue eng reg wfl env aliasMap singleNodeId st' (nodeId # visited)
                      (enqueueNext wfl singleNodeId (nodeId # visited) nodeId queue)))"
  by pat_completeness auto
termination
proof (relation "measures
    [\<lambda>(eng, reg, wfl, env, aliasMap, singleNodeId, st, visited, queue).
        card (node_id ` set (nodes wfl) - set visited),
     \<lambda>(eng, reg, wfl, env, aliasMap, singleNodeId, st, visited, queue). length queue]")
  fix wfl :: workflow and visited :: "string list" and nodeId node
  assume "nodeId \<notin> set visited" and "find (\<lambda>n. node_id n = nodeId) (nodes wfl) = Some node"
  then have "nodeId \<in> node_id ` set (nodes wfl) - set visited"
    by (auto simp: find_Some_iff)
  then have "card (node_id ` set (nodes wfl) - set visited - {nodeId})
               < card (node_id ` set (nodes wfl) - set visited)"
    by (intro card_Diff1_less) auto
  moreover have "node_id ` set (nodes wfl) - set (nodeId # visited)
                   = node_id ` set (nodes wfl) - set visited - {nodeId}"
    by auto
  ultimately show "\<And>eng reg env aliasMap singleNodeId st queue x2 st'.
      ((eng, reg, wfl, env, aliasMap, singleNodeId, st', nodeId # visited,
        enqueueNext wfl singleNodeId (nodeId # visited) nodeId queue),
       eng, reg, wfl, env, aliasMap, singleNodeId, st, visited, nodeId # queue)
      \<in> measures
          [\<lambda>(eng, reg, wfl, env, aliasMap, singleNodeId, st, visited, queue).
              card (node_id ` set (nodes wfl) - set visited),
           \<lambda>(eng, reg, wfl, env, aliasMap, singleNodeId, st, visited, queue). length queue]"
    by simp
next
  fix wfl :: workflow and visited :: "string list" and nodeId
  assume "find (\<lambda>n. node_id n = nodeId) (nodes wfl) = None"
  then have "nodeId \<notin> node_id ` set (nodes wfl)"
    by (auto simp: find_None_iff)
  then have "node_id ` set (nodes wfl) - set (nodeId # visited)
               = node_id ` set (nodes wfl) - set visited"
    by auto
  then show "\<And>eng reg env aliasMap singleNodeId st queue.
      ((eng, reg, wfl, env, aliasMap, singleNodeId, st, nodeId # visited, queue),
       eng, reg, wfl, env, aliasMap, singleNodeId, st, visited, nodeId # queue)
      \<in> measures
          [\<lambda>(eng, reg, wfl, env, aliasMap, singleNodeId, st, visited, queue).
              card (node_id ` set (nodes wfl) - set visited),
           \<lambda>(eng, reg, wfl, env, aliasMap, singleNodeId, st, visited, queue). length queue]"
    by simp
qed simp_all

declare runQueue.simps [simp del]

subsection \<open>\<open>executeWorkflow\<close>\<close>

definition initialExecution :: "workflow \<Rightarrow> exec_options \<Rightarrow> workflow_execution" where
  "initialExecution wfl options =
     (case existingExecution options of
        Some existing \<Rightarrow> existing\<lparr>status := WRunning\<rparr>
      | None \<Rightarrow> \<lparr>exec_workflowId = wf_id wfl, status = WRunning, logs = [], nodeExecutions = []\<rparr>)"

definition singleNodeIdOf :: "exec_options \<Rightarrow> string option" where
  "singleNodeIdOf options = map_option trim (onlyNodeId options)"

text \<open>
  The loop over \<open>Object.entries(execution.nodeExecutions)\<close> that fills \<open>nodeOutputs\<close> from
  a previous execution, one log line for each record that has outputs.
\<close>

fun restoreOutputs :: "engine \<Rightarrow> (string \<times> node_execution) list \<Rightarrow> run_state \<Rightarrow> res" where
  "restoreOutputs eng [] st = Ok st"
| "restoreOutputs eng ((nodeId, nodeExecution) # entries) st =
     (case ne_outputs nodeExecution of
        None \<Rightarrow> restoreOutputs eng entries st
      | Some outs \<Rightarrow>
          andThen
            (log eng (st\<lparr>nodeOutputs := assign nodeId outs (nodeOutputs st)\<rparr>) Info
               (''Restored outputs from previous execution: '' @ nodeId) None)
            (restoreOutputs eng entries))"

definition findStartNode :: "workflow \<Rightarrow> string option \<Rightarrow> workflow_node option" where
  "findStartNode wfl singleNodeId =
     (if presentId singleNodeId
      then find (\<lambda>n. Some (node_id n) = singleNodeId) (nodes wfl)
      else find (\<lambda>node. node_id node = starterId wfl) (nodes wfl))"

text \<open>What follows the loop inside the \<open>try\<close> block.\<close>

definition completeRun :: "engine \<Rightarrow> run_state \<Rightarrow> res" where
  "completeRun eng st =
     (if status (execution st) \<noteq> WCancelled
      then log eng (setStatus WSuccess st) Info ''Workflow completed'' None
      else Ok st)"

text \<open>The outer \<open>try\<close> block of \<open>executeWorkflow\<close>.\<close>

definition workflowBody ::
  "engine \<Rightarrow> registry \<Rightarrow> workflow \<Rightarrow> (string \<rightharpoonup> string) \<Rightarrow> exec_options \<Rightarrow> run_state \<Rightarrow> res" where
  "workflowBody eng reg wfl env options st =
     (case validateWorkflow wfl of
        Some e \<Rightarrow> Raised e st
      | None \<Rightarrow>
          (let aliasMap = buildAliasMap (nodes wfl);
               singleNodeId = singleNodeIdOf options
           in andThen
                (if presentId singleNodeId
                 then restoreOutputs eng (nodeExecutions (execution st)) st
                 else Ok st)
                (\<lambda>st1. case findStartNode wfl singleNodeId of
                          None \<Rightarrow>
                            Raised (ErrorObj (if presentId singleNodeId then ''Selected node not found''
                                              else ''Start node not found'')) st1
                        | Some startNode \<Rightarrow>
                            andThen
                              (fst (runQueue eng reg wfl env aliasMap singleNodeId st1 [] [node_id startNode]))
                              (completeRun eng))))"

text \<open>The outer \<open>catch\<close> block.\<close>

definition workflowCatch :: "engine \<Rightarrow> thrown \<Rightarrow> run_state \<Rightarrow> res" where
  "workflowCatch eng e st =
     log eng (setStatus WError st) Err (''Workflow failed: '' @ errorMessage e) None"

text \<open>
  \<open>executeWorkflow\<close> itself, which begins with a new \<open>AbortController\<close>. \<open>Ok st\<close> is the
  promise fulfilled with the snapshot \<open>execution st\<close>; \<open>Raised e st\<close> is the promise rejected
  with \<open>e\<close>, the state being what the execution object had become by then.
\<close>

definition executeWorkflow ::
  "engine \<Rightarrow> registry \<Rightarrow> workflow \<Rightarrow> (string \<rightharpoonup> string) \<Rightarrow> exec_options \<Rightarrow> res" where
  "executeWorkflow eng reg wfl env options =
     (case log eng \<lparr>execution = initialExecution wfl options, nodeOutputs = [], aborted = False\<rparr>
             Info (''Starting workflow: '' @ wf_name wfl) None of
        Raised e st \<Rightarrow> Raised e st
      | Ok st \<Rightarrow>
          (case workflowBody eng reg wfl env options st of
             Ok st' \<Rightarrow> Ok st'
           | Raised e st' \<Rightarrow> workflowCatch eng e st'))"

section \<open>Notions used in the statements\<close>

text \<open>
  The values on which \<open>member\<close> can find a key: records, arrays and non-empty strings.
  Every other value is either falsy, so that \<open>getByPath\<close> leaves at the next step, or a
  number or boolean, which has no own properties.
\<close>

definition answersKeys :: "jsval \<Rightarrow> bool" where
  "answersKeys v =
     (case v of JObj kvs \<Rightarrow> True | JArr xs \<Rightarrow> True | JStr s \<Rightarrow> s \<noteq> [] | _ \<Rightarrow> False)"

text \<open>The \<open>outputs\<close> field of the record kept for a node, if there is a record.\<close>

definition entryOutputs :: "run_state \<Rightarrow> string \<Rightarrow> jobj option option" where
  "entryOutputs st nid = map_option ne_outputs (map_of (nodeExecutions (execution st)) nid)"

text \<open>
  \<open>key ? outputs?.[key] : outputs\<close>, the last line of \<open>getNodeOutput\<close>, for the outputs found
  in the store.
\<close>

definition readSlot :: "jobj option \<Rightarrow> string option \<Rightarrow> jsval" where
  "readSlot outputs key =
     (case outputs of
        None \<Rightarrow> JUndefined
      | Some out \<Rightarrow> if presentId key then getProp out (case key of Some k \<Rightarrow> k | None \<Rightarrow> []) else JObj out)"

text \<open>
  Two states of a run that differ, if at all, in the log, in the abort flag and in what
  is kept for one node: its record and its slot of the output store.
\<close>

definition sameElsewhere :: "string \<Rightarrow> run_state \<Rightarrow> run_state \<Rightarrow> bool" where
  "sameElsewhere nid st st' \<longleftrightarrow>
     status (execution st') = status (execution st)
     \<and> map fst (nodeExecutions (execution st')) = map fst (nodeExecutions (execution st))
     \<and> (\<forall>k. k \<noteq> nid \<longrightarrow> map_of (nodeExecutions (execution st')) k = map_of (nodeExecutions (execution st)) k)
     \<and> (\<forall>k. k \<noteq> nid \<longrightarrow> map_of (nodeOutputs st') k = map_of (nodeOutputs st) k)"

text \<open>
  What \<open>executeWorkflow\<close> makes of the outcome of its loop: the rest of the \<open>try\<close> block,
  the outer \<open>catch\<close> block, and the return.
\<close>

definition settle :: "engine \<Rightarrow> res \<Rightarrow> res" where
  "settle eng r =
     (case andThen r (completeRun eng) of
        Ok st \<Rightarrow> Ok st
      | Raised e st \<Rightarrow> workflowCatch eng e st)"

text \<open>
  Every record in a state is either marked successful or is, unchanged, the record the
  given table has under the same id.
\<close>

definition successOrCarried :: "(string \<times> node_execution) list \<Rightarrow> run_state \<Rightarrow> bool" where
  "successOrCarried carried st \<longleftrightarrow>
     (\<forall>nid ne. map_of (nodeExecutions (execution st)) nid = Some ne \<longrightarrow>
        ne_status ne = NSuccess \<or> map_of carried nid = Some ne)"

text \<open>
  The state in which the \<open>try\<close> block of \<open>executeWorkflow\<close> is entered: the first log
  line has been written and its subscriber has been called.
\<close>

definition startedState :: "engine \<Rightarrow> workflow \<Rightarrow> exec_options \<Rightarrow> run_state" where
  "startedState eng wfl options =
     stateOf (log eng \<lparr>execution = initialExecution wfl options, nodeOutputs = [], aborted = False\<rparr>
                Info (''Starting workflow: '' @ wf_name wfl) None)"

text \<open>
  The edges that can lead the traversal on: those whose target is a node of the workflow.
\<close>

definition edgeRel :: "workflow \<Rightarrow> (string \<times> string) set" where
  "edgeRel wfl =
     {(edge_source e, edge_target e) |e. e \<in> set (edges wfl) \<and> edge_target e \<in> node_id ` set (nodes wfl)}"

text \<open>
  The order of visits of a full run in which nothing fails and nothing stops: the loop
  of \<open>executeWorkflow\<close> with the execution of the nodes left out. The queue is first in,
  first out; the successors of a node join it in the order of the node list.
\<close>

function visitOrder :: "workflow \<Rightarrow> string list \<Rightarrow> string list \<Rightarrow> string list" where
  "visitOrder wfl visited [] = []"
| "visitOrder wfl visited (nodeId # queue) =
     (if nodeId \<in> set visited then visitOrder wfl visited queue
      else case find (\<lambda>n. node_id n = nodeId) (nodes wfl) of
             None \<Rightarrow> visitOrder wfl (nodeId # visited) queue
           | Some node \<Rightarrow>
               nodeId # visitOrder wfl (nodeId # visited)
                 (queue @ map node_id (filter (\<lambda>n. node_id n \<notin> set (nodeId # visited))
                                          (getConnectedNodes wfl nodeId))))"
  by pat_completeness auto
termination
proof (relation "measures
    [\<lambda>(wfl, visited, queue). card (node_id ` set (nodes wfl) - set visited),
     \<lambda>(wfl, visited, queue). length queue]")
  fix wfl :: workflow and visited :: "string list" and nodeId node queue
  assume "nodeId \<notin> set visited" and "find (\<lambda>n. node_id n = nodeId) (nodes wfl) = Some node"
  then have "nodeId \<in> node_id ` set (nodes wfl) - set visited"
    by (auto simp: find_Some_iff)
  then have "card (node_id ` set (nodes wfl) - set visited - {nodeId})
               < card (node_id ` set (nodes wfl) - set visited)"
    by (intro card_Diff1_less) auto
  moreover have "node_id ` set (nodes wfl) - set (nodeId # visited)
                   = node_id ` set (nodes wfl) - set visited - {nodeId}"
    by auto
  ultimately show "((wfl, nodeId # visited,
        queue @ map node_id (filter (\<lambda>n. node_id n \<notin> set (nodeId # visited)) (getConnectedNodes wfl nodeId))),
       wfl, visited, nodeId # queue)
      \<in> measures
          [\<lambda>(wfl, visited, queue). card (node_id ` set (nodes wfl) - set visited),
           \<lambda>(wfl, visited, queue). length queue]"
    by simp
next
  fix wfl :: workflow and visited :: "string list" and nodeId queue
  assume "find (\<lambda>n. node_id n = nodeId) (nodes wfl) = None"
  then have "nodeId \<notin> node_id ` set (nodes wfl)"
    by (auto simp: find_None_iff)
  then have "node_id ` set (nodes wfl) - set (nodeId # visited)
               = node_id ` set (nodes wfl) - set visited"
    by auto
  then show "((wfl, nodeId # visited, queue), wfl, visited, nodeId # queue)
      \<in> measures
          [\<lambda>(wfl, visited, queue). card (node_id ` set (nodes wfl) - set visited),
           \<lambda>(wfl, visited, queue). length queue]"
    by simp
qed simp_all

declare visitOrder.simps [simp del]

section \<open>Example data\<close>

text \<open>Concrete nodes, workflows, blocks and subscribers used to exercise the theorems.\<close>

definition mkNode :: "string \<Rightarrow> string \<Rightarrow> jobj \<Rightarrow> workflow_node" where
  "mkNode i t d = \<lparr>node_id = i, node_type = t, node_data = d\<rparr>"

definition mkEdge :: "string \<Rightarrow> string \<Rightarrow> workflow_edge" where
  "mkEdge a b = \<lparr>edge_id = a @ ''-'' @ b, edge_source = a, edge_target = b\<rparr>"

definition mkWorkflow :: "string \<Rightarrow> workflow_node list \<Rightarrow> workflow_edge list \<Rightarrow> workflow" where
  "mkWorkflow s ns es = \<lparr>wf_id = ''wf'', wf_name = ''example'', starterId = s, nodes = ns, edges = es\<rparr>"




text \<open>A chain \<open>A \<rightarrow> B\<close>, and the same with the empty string as the id of the first node.\<close>

definition chainAB :: workflow where
  "chainAB = mkWorkflow ''A'' [mkNode ''A'' ''starter'' [], mkNode ''B'' ''response'' []] [mkEdge ''A'' ''B'']"


text \<open>Outputs recorded for node \<open>A\<close>: a string, a number and a nested record.\<close>

definition helloOutputs :: store where
  "helloOutputs =
     [(''A'', [(''name'', JStr ''hello''), (''count'', JNum 3), (''user'', JObj [(''age'', JNum 41)])])]"

text \<open>
  Subscribers that do nothing, a log subscriber that always throws, and a log subscriber
  that calls \<open>stop()\<close> when it is told of restored outputs.
\<close>

definition quiet :: reaction where
  "quiet = \<lparr>called_stop = False, threw = None\<rparr>"

definition quietEngine :: engine where
  "quietEngine = \<lparr>onLog = (\<lambda>entry. quiet), onNodeUpdate = (\<lambda>nid ne. quiet)\<rparr>"

definition throwingLogEngine :: engine where
  "throwingLogEngine =
     \<lparr>onLog = (\<lambda>entry. \<lparr>called_stop = False, threw = Some (ErrorObj ''subscriber failed'')\<rparr>),
      onNodeUpdate = (\<lambda>nid ne. quiet)\<rparr>"

definition stoppingLogEngine :: engine where
  "stoppingLogEngine =
     \<lparr>onLog = (\<lambda>entry. \<lparr>called_stop = (take 8 (log_message entry) = ''Restored''), threw = None\<rparr>),
      onNodeUpdate = (\<lambda>nid ne. quiet)\<rparr>"

text \<open>
  Blocks: one that returns a fixed value, one that returns its resolved inputs, one that
  writes two outputs and returns a record, one that throws, one during whose run
  \<open>stop()\<close> is called, and one during whose run \<open>stop()\<close> is called and which then throws.
\<close>

definition constBlock :: "jsval \<Rightarrow> block" where
  "constBlock v ctx = \<lparr>out_writes = [], out_logged = [], out_result = Returned v, out_stopped = False\<rparr>"

definition echoBlock :: block where
  "echoBlock ctx =
     \<lparr>out_writes = [], out_logged = [], out_result = Returned (ctx_inputs ctx), out_stopped = False\<rparr>"

definition writerBlock :: block where
  "writerBlock ctx =
     \<lparr>out_writes = [(''a'', JNum 1), (''b'', JNum 2)], out_logged = [''writing''],
      out_result = Returned (JObj [(''b'', JNum 3), (''c'', JNum 4)]), out_stopped = False\<rparr>"

definition failingBlock :: block where
  "failingBlock ctx =
     \<lparr>out_writes = [], out_logged = [], out_result = Threw (ErrorObj ''boom''), out_stopped = False\<rparr>"

definition stoppedBlock :: block where
  "stoppedBlock ctx =
     \<lparr>out_writes = [], out_logged = [], out_result = Returned (JObj []), out_stopped = True\<rparr>"

definition haltedBlock :: block where
  "haltedBlock ctx =
     \<lparr>out_writes = [], out_logged = [], out_result = Threw (ErrorObj ''aborted''), out_stopped = True\<rparr>"

text \<open>A block that reads \<open>getNodeOutput("upstream", "value")\<close> and returns what it found.\<close>

definition readerBlock :: block where
  "readerBlock ctx =
     \<lparr>out_writes = [], out_logged = [],
      out_result = Returned (JObj [(''seen'', getNodeOutput ctx ''upstream'' (Some ''value''))]),
      out_stopped = False\<rparr>"

definition exampleRegistry :: registry where
  "exampleRegistry t =
     (if t = ''starter'' then Some (constBlock (JObj []))
      else if t = ''answer'' then Some (constBlock (JNum 42))
      else if t = ''echo'' then Some echoBlock
      else if t = ''writer'' then Some writerBlock
      else if t = ''boom'' then Some failingBlock
      else if t = ''stopper'' then Some stoppedBlock
      else if t = ''halt'' then Some haltedBlock
      else if t = ''reader'' then Some readerBlock
      else None)"

definition noOptions :: exec_options where
  "noOptions = \<lparr>onlyNodeId = None, existingExecution = None\<rparr>"

definition freshState :: run_state where
  "freshState =
     \<lparr>execution = \<lparr>exec_workflowId = ''wf'', status = WRunning, logs = [], nodeExecutions = []\<rparr>,
      nodeOutputs = [], aborted = False\<rparr>"

text \<open>\<open>S \<rightarrow> A \<rightarrow> B\<close>: \<open>A\<close> returns the bare number 42, \<open>B\<close> echoes \<open>{{prev.value}}\<close>.\<close>

definition bareValueChain :: workflow where
  "bareValueChain =
     mkWorkflow ''S''
       [mkNode ''S'' ''starter'' [], mkNode ''A'' ''answer'' [],
        mkNode ''B'' ''echo'' [(''msg'', JStr ''{{prev.value}}'')]]
       [mkEdge ''S'' ''A'', mkEdge ''A'' ''B'']"

text \<open>
  \<open>S\<close> with successors \<open>A\<close> and \<open>B\<close>, where \<open>A\<close> throws; and a previous execution in which
  \<open>B\<close> had succeeded, handed to a full run.
\<close>

definition failingFanOut :: workflow where
  "failingFanOut =
     mkWorkflow ''S''
       [mkNode ''S'' ''starter'' [], mkNode ''A'' ''boom'' [], mkNode ''B'' ''echo'' []]
       [mkEdge ''S'' ''A'', mkEdge ''S'' ''B'']"

definition succeeded :: "string \<Rightarrow> jobj \<Rightarrow> node_execution" where
  "succeeded nid outs = \<lparr>ne_nodeId = nid, ne_status = NSuccess, ne_outputs = Some outs, ne_error = None\<rparr>"

definition priorWithB :: workflow_execution where
  "priorWithB =
     \<lparr>exec_workflowId = ''wf'', status = WSuccess, logs = [],
      nodeExecutions = [(''B'', succeeded ''B'' [(''done'', JBool True)])]\<rparr>"

definition fullRunWithPrior :: exec_options where
  "fullRunWithPrior = \<lparr>onlyNodeId = None, existingExecution = Some priorWithB\<rparr>"

text \<open>
  \<open>S\<close> with successors \<open>P\<close>, \<open>X\<close> and \<open>F\<close>, and an edge from \<open>P\<close> to \<open>X\<close>: when \<open>P\<close> has run,
  \<open>X\<close> is in the queue a second time, behind \<open>F\<close>, which throws.
\<close>

definition requeued :: workflow where
  "requeued =
     mkWorkflow ''S''
       [mkNode ''S'' ''starter'' [], mkNode ''P'' ''echo'' [], mkNode ''X'' ''echo'' [],
        mkNode ''F'' ''boom'' []]
       [mkEdge ''S'' ''P'', mkEdge ''S'' ''X'', mkEdge ''S'' ''F'', mkEdge ''P'' ''X'']"

text \<open>A chain in which \<open>stop()\<close> is called while the second node runs.\<close>

definition stoppedChain :: workflow where
  "stoppedChain =
     mkWorkflow ''S''
       [mkNode ''S'' ''starter'' [], mkNode ''T'' ''stopper'' [], mkNode ''B'' ''echo'' []]
       [mkEdge ''S'' ''T'', mkEdge ''T'' ''B'']"

text \<open>
  \<open>S\<close> with successors \<open>T\<close> and \<open>B\<close>: while \<open>T\<close> runs, with \<open>B\<close> waiting in the queue, \<open>stop()\<close>
  is called, and \<open>T\<close> then throws.
\<close>

definition haltedFanOut :: workflow where
  "haltedFanOut =
     mkWorkflow ''S''
       [mkNode ''S'' ''starter'' [], mkNode ''T'' ''halt'' [], mkNode ''B'' ''echo'' []]
       [mkEdge ''S'' ''T'', mkEdge ''S'' ''B'']"

text \<open>
  Re-running \<open>R\<close> alone after a run in which \<open>upstream\<close> recorded \<open>value: 42\<close>; and the same
  request on a workflow whose \<open>starterId\<close> names no node.
\<close>

definition readerWorkflow :: workflow where
  "readerWorkflow =
     mkWorkflow ''S''
       [mkNode ''S'' ''starter'' [], mkNode ''upstream'' ''boom'' [], mkNode ''R'' ''reader'' []]
       [mkEdge ''S'' ''upstream'', mkEdge ''upstream'' ''R'']"

definition priorWithUpstream :: workflow_execution where
  "priorWithUpstream =
     \<lparr>exec_workflowId = ''wf'', status = WSuccess, logs = [],
      nodeExecutions = [(''upstream'', succeeded ''upstream'' [(''value'', JNum 42)])]\<rparr>"

definition rerunR :: exec_options where
  "rerunR = \<lparr>onlyNodeId = Some ''R'', existingExecution = Some priorWithUpstream\<rparr>"

definition missingStarter :: workflow where
  "missingStarter =
     mkWorkflow ''gone''
       [mkNode ''upstream'' ''boom'' [], mkNode ''R'' ''reader'' []]
       [mkEdge ''upstream'' ''R'']"

text \<open>\<open>S\<close> with the edge to \<open>B\<close> declared before the edge to \<open>A\<close>; \<open>A\<close> precedes \<open>B\<close> in the node list.\<close>

definition edgesReversed :: workflow where
  "edgesReversed =
     mkWorkflow ''S''
       [mkNode ''S'' ''starter'' [], mkNode ''A'' ''echo'' [], mkNode ''B'' ''echo'' []]
       [mkEdge ''S'' ''B'', mkEdge ''S'' ''A'']"

text \<open>A chain whose node ids are the numerals \<open>2\<close>, \<open>10\<close> and \<open>1\<close>, in that order.\<close>

definition numbered :: workflow where
  "numbered =
     mkWorkflow ''2''
       [mkNode ''2'' ''starter'' [], mkNode ''10'' ''echo'' [], mkNode ''1'' ''echo'' []]
       [mkEdge ''2'' ''10'', mkEdge ''10'' ''1'']"

section \<open>Properties of the template resolver\<close>

subsection \<open>Auxiliary facts\<close>













subsection \<open>Alias map\<close>




subsection \<open>The \<open>prev\<close> root\<close>




subsection \<open>Path traversal\<close>

lemma walkPath_append: "walkPath cur (a @ b) = walkPath (walkPath cur a) b"
  by (induction a arbitrary: cur) (auto, cases b, auto)

lemma walkPath_undefined: "walkPath JUndefined ps = JUndefined"
  by (cases ps) auto

text \<open>
  C5, as the code has it. The traversal reads a record key by key. When a further key
  follows a value that is not a record, an array or a non-empty string (so: \<open>undefined\<close>,
  \<open>null\<close>, a boolean, a number or the empty string), the result is \<open>undefined\<close> and the
  placeholder renders as the empty string.
\<close>

theorem path_traversal_stops:
  assumes "splitOn CHR ''.'' path = pre @ key # post"
    and "\<not> answersKeys (walkPath (JObj obj) pre)"
  shows "walkPath (JObj kvs) (k # ks) = walkPath (getProp kvs k) ks
    \<and> getByPath (JObj obj) path = JUndefined \<and> render (getByPath (JObj obj) path) = []"
proof -
  have "walkPath (walkPath (JObj obj) pre) (key # post) = JUndefined"
    using assms(2)
    by (cases "walkPath (JObj obj) pre") (auto simp: answersKeys_def walkPath_undefined)
  then have "walkPath (JObj obj) (splitOn CHR ''.'' path) = JUndefined"
    by (simp only: assms(1) walkPath_append)
  then show ?thesis
    by (simp add: getByPath_def render_def)
qed

text \<open>\<open>count\<close> is the number 3, so \<open>count.digits.first\<close> leads nowhere.\<close>

theorem path_traversal_stops_witness:
  "splitOn CHR ''.'' ''count.digits.first'' = [''count''] @ ''digits'' # [''first'']
   \<and> \<not> answersKeys (walkPath (JObj (slotOf helloOutputs ''A'')) [''count''])
   \<and> render (getByPath (JObj (slotOf helloOutputs ''A'')) ''count.digits.first'') = []"
proof -
  have s: "splitOn CHR ''.'' ''count.digits.first'' = [''count''] @ ''digits'' # [''first'']"
    by code_simp
  have a: "\<not> answersKeys (walkPath (JObj (slotOf helloOutputs ''A'')) [''count''])"
    by code_simp
  show ?thesis
    using path_traversal_stops [OF s a] s a by (simp add: render_def)
qed

text \<open>
  C5 as stated fails on a string in the middle of a path: \<open>name\<close> is \<open>hello\<close>, a value that
  is not a container, and \<open>{{prev.name.length}}\<close> resolves to \<open>5\<close>.
\<close>

theorem string_intermediate_counterexample:
  "resolveTemplatesDeep Map.empty (prevIdOf chainAB ''B'') helloOutputs emptyAliasMap
     (JStr ''{{prev.name.length}}'') = JStr ''5''"
  by code_simp

section \<open>Properties of node execution\<close>

subsection \<open>Auxiliary facts\<close>

lemma map_of_insertIndexed:
  "k \<notin> fst ` set es \<Longrightarrow> map_of (insertIndexed k v es) = (map_of es)(k \<mapsto> v)"
proof (induction es)
  case Nil
  show ?case by simp
next
  case (Cons e es)
  then have "k \<noteq> fst e" and "k \<notin> fst ` set es" by auto
  with Cons.IH show ?case
    by (cases e) (auto simp: fun_upd_twist)
qed

lemma keys_insertIndexed: "fst ` set (insertIndexed k v es) = insert k (fst ` set es)"
  by (induction es) auto

lemma map_of_assign: "map_of (assign k v al) = (map_of al)(k \<mapsto> v)"
  by (auto simp: assign_def update_conv' map_of_insertIndexed)

lemma keys_update: "fst ` set (AList.update k v al) = insert k (fst ` set al)"
  by (induction al) auto

lemma keys_assign: "fst ` set (assign k v al) = insert k (fst ` set al)"
  by (simp add: assign_def keys_insertIndexed keys_update)

lemma map_fst_update_present:
  "k \<in> fst ` set al \<Longrightarrow> map fst (AList.update k v al) = map fst al"
  by (induction al) auto

lemma map_fst_assign_present:
  "k \<in> fst ` set al \<Longrightarrow> map fst (assign k v al) = map fst al"
  by (auto simp: assign_def map_fst_update_present)

lemma heard_simps [simp]:
  "execution (heard r st) = execution st"
  "nodeOutputs (heard r st) = nodeOutputs st"
  "aborted (heard r st) = (aborted st \<or> called_stop r)"
  by (simp_all add: heard_def)

lemma entryOutputs_heard [simp]: "entryOutputs (heard r st) nid = entryOutputs st nid"
  by (simp add: entryOutputs_def)

lemma spread_Nil: "spread a [] = a"
  by (simp add: spread_def)

lemma spread_Cons: "spread a (kv # b) = spread (assign (fst kv) (snd kv) a) b"
  by (simp add: spread_def case_prod_beta)

lemma slotOf_writes:
  "slotOf (foldl (setNodeOutput nid) outs ws) nid = spread (slotOf outs nid) ws"
proof (induction ws arbitrary: outs)
  case Nil
  show ?case by (simp add: spread_def)
next
  case (Cons w ws)
  have "slotOf (setNodeOutput nid outs w) nid = assign (fst w) (snd w) (slotOf outs nid)"
    by (simp add: setNodeOutput_def slotOf_def map_of_assign)
  with Cons [of "setNodeOutput nid outs w"] show ?case
    by (simp add: spread_Cons)
qed

lemma map_of_writes:
  "map_of (foldl (setNodeOutput nid) outs ws) k =
     (if k = nid \<and> ws \<noteq> [] then Some (spread (slotOf outs nid) ws) else map_of outs k)"
proof (induction ws arbitrary: outs)
  case Nil
  show ?case by simp
next
  case (Cons w ws)
  have s: "slotOf (setNodeOutput nid outs w) nid = assign (fst w) (snd w) (slotOf outs nid)"
    by (simp add: setNodeOutput_def slotOf_def map_of_assign)
  have m: "map_of (setNodeOutput nid outs w) k =
      (if k = nid then Some (assign (fst w) (snd w) (slotOf outs nid)) else map_of outs k)"
    by (simp add: setNodeOutput_def slotOf_def map_of_assign)
  show ?case
    using Cons [of "setNodeOutput nid outs w"]
    by (cases ws) (auto simp: s m spread_Cons spread_def case_prod_beta)
qed

lemma stateOf_log:
  "stateOf (log eng st lvl msg nid) =
     heard (onLog eng \<lparr>log_nodeId = nid, log_message = msg, log_level = lvl\<rparr>)
       (st\<lparr>execution := (execution st)\<lparr>logs := logs (execution st) @
          [\<lparr>log_nodeId = nid, log_message = msg, log_level = lvl\<rparr>]\<rparr>\<rparr>)"
  by (simp add: log_def Let_def split: option.splits)

lemma makeContext_outputs:
  "nodeOutputs st' = nodeOutputs st \<Longrightarrow>
   makeContext wfl env aliasMap singleNodeId node st' = makeContext wfl env aliasMap singleNodeId node st"
  by (simp add: makeContext_def)

lemma recordResult_state:
  shows "entryOutputs (stateOf (recordResult eng node ne result st)) (node_id node)
           = Some (Some (spread (slotOf (nodeOutputs st) (node_id node)) (returnOutputs result)))"
    and "map_of (nodeOutputs (stateOf (recordResult eng node ne result st))) (node_id node)
           = (case result of
                JObj kvs \<Rightarrow> Some (spread (slotOf (nodeOutputs st) (node_id node)) kvs)
              | _ \<Rightarrow> map_of (nodeOutputs st) (node_id node))"
  by (auto simp: recordResult_def Let_def stateOf_log putNodeExecution_def entryOutputs_def map_of_assign
      split: jsval.splits)


lemma stateOf_rethrow:
  "stateOf (case r of Ok st' \<Rightarrow> Raised e st' | Raised e' st' \<Rightarrow> Raised e' st') = stateOf r"
  by (cases r) auto

lemma nodeFailed_state:
  "entryOutputs st (node_id node) \<noteq> None \<Longrightarrow>
   entryOutputs (stateOf (nodeFailed eng node ne e st)) (node_id node) = entryOutputs st (node_id node)"
  by (auto simp: nodeFailed_def Let_def stateOf_rethrow stateOf_log putNodeExecution_def
      entryOutputs_def map_of_assign split: option.splits)

lemma nodeFailed_outputs:
  "nodeOutputs (stateOf (nodeFailed eng node ne e st)) = nodeOutputs st"
  by (simp add: nodeFailed_def Let_def stateOf_rethrow stateOf_log putNodeExecution_def)

subsection \<open>Recorded outputs\<close>

text \<open>
  C7, as the code has it. Suppose the node's block is registered, the first
  \<open>onNodeUpdate\<close> call and the node's opening log line pass (so the block is run), and the
  block returns \<open>result\<close>. Then, however the rest of \<open>executeNode\<close> goes, the node's
  record holds as outputs the merge of (a) the node's slot of the output store at the end
  of the run, which is the slot as it was before the run with the \<open>setNodeOutput\<close> writes
  of the run laid over it, and (b) the returned record, a value that is not a plain
  record being wrapped as \<open>value\<close>. The store receives that merge only when the result is
  a plain record; otherwise the node's slot keeps just (a), and stays absent when
  nothing was written.
\<close>

theorem node_outputs_merge:
  assumes reg: "reg (node_type node) = Some blockConfig"
    and upd: "threw (onNodeUpdate eng (node_id node) \<lparr>ne_nodeId = node_id node, ne_status = NRunning, ne_outputs = None, ne_error = None\<rparr>) = None"
    and start: "node_type node = ''starter'' \<or>
                threw (onLog eng \<lparr>log_nodeId = Some (node_id node),
                           log_message = node_type node @ '': '' @ node_id node, log_level = Info\<rparr>) = None"
    and run: "blockConfig (makeContext wfl env aliasMap singleNodeId node st) = outcome"
    and ret: "out_result outcome = Returned result"
  shows "entryOutputs (stateOf (executeNode eng reg wfl node st env aliasMap singleNodeId)) (node_id node)
           = Some (Some (spread (spread (slotOf (nodeOutputs st) (node_id node)) (out_writes outcome))
                           (returnOutputs result)))
       \<and> map_of (nodeOutputs (stateOf (executeNode eng reg wfl node st env aliasMap singleNodeId))) (node_id node)
           = (case result of
                JObj kvs \<Rightarrow> Some (spread (spread (slotOf (nodeOutputs st) (node_id node)) (out_writes outcome)) kvs)
              | _ \<Rightarrow> if out_writes outcome = [] then map_of (nodeOutputs st) (node_id node)
                     else Some (spread (slotOf (nodeOutputs st) (node_id node)) (out_writes outcome)))"
proof -
  let ?nid = "node_id node"
  let ?ne = "\<lparr>ne_nodeId = ?nid, ne_status = NRunning, ne_outputs = None, ne_error = None\<rparr>"
  let ?st1 = "heard (onNodeUpdate eng ?nid ?ne) (putNodeExecution ?nid ?ne st)"
  let ?pre = "if node_type node \<noteq> ''starter''
        then log eng ?st1 Info (node_type node @ '': '' @ node_id node) (Some ?nid) else Ok ?st1"
  have "\<exists>s1. ?pre = Ok s1 \<and> nodeOutputs s1 = nodeOutputs st"
  proof (cases "node_type node = ''starter''")
    case True
    then show ?thesis by (simp add: putNodeExecution_def)
  next
    case False
    with start have "threw (onLog eng \<lparr>log_nodeId = Some (node_id node),
                           log_message = node_type node @ '': '' @ node_id node, log_level = Info\<rparr>) = None"
      by simp
    with False show ?thesis by (simp add: log_def Let_def putNodeExecution_def)
  qed
  then obtain s1 where pre: "?pre = Ok s1" and pre_outs: "nodeOutputs s1 = nodeOutputs st"
    by blast
  let ?st2 = "afterRun node outcome s1"
  have ctx: "blockConfig (makeContext wfl env aliasMap singleNodeId node s1) = outcome"
    using run makeContext_outputs [OF pre_outs] by simp
  have body: "nodeBody eng reg wfl env aliasMap singleNodeId node ?ne ?st1
                = recordResult eng node ?ne result ?st2"
    apply (simp only: nodeBody_def pre)
    apply (simp add: andThen_def reg ctx ret Let_def)
    done
  have outs2: "nodeOutputs ?st2 = foldl (setNodeOutput ?nid) (nodeOutputs st) (out_writes outcome)"
    by (simp add: afterRun_def pre_outs)
  have slot2: "slotOf (nodeOutputs ?st2) ?nid = spread (slotOf (nodeOutputs st) ?nid) (out_writes outcome)"
    by (simp add: outs2 slotOf_writes)
  have rr1: "entryOutputs (stateOf (recordResult eng node ?ne result ?st2)) ?nid
      = Some (Some (spread (spread (slotOf (nodeOutputs st) ?nid) (out_writes outcome)) (returnOutputs result)))"
    using recordResult_state(1) [of eng node ?ne result ?st2] by (simp add: slot2)
  have rr2: "map_of (nodeOutputs (stateOf (recordResult eng node ?ne result ?st2))) ?nid
      = (case result of
                JObj kvs \<Rightarrow> Some (spread (spread (slotOf (nodeOutputs st) ?nid) (out_writes outcome)) kvs)
              | _ \<Rightarrow> if out_writes outcome = [] then map_of (nodeOutputs st) ?nid
                     else Some (spread (slotOf (nodeOutputs st) ?nid) (out_writes outcome)))"
    using recordResult_state(2) [of eng node ?ne result ?st2]
    by (simp add: outs2 slotOf_writes map_of_writes spread_Nil split: jsval.splits)
  show ?thesis
  proof (cases "recordResult eng node ?ne result ?st2")
    case (Ok st3)
    then show ?thesis
      using rr1 rr2 upd body
      by (simp add: executeNode_def Let_def stateOf_rethrow split: option.splits)
  next
    case (Raised e st3)
    then show ?thesis
      using rr1 rr2 upd body
      by (simp add: executeNode_def Let_def nodeFailed_state nodeFailed_outputs)
  qed
qed

text \<open>
  A block that writes \<open>a: 1\<close> and \<open>b: 2\<close> and returns \<open>b: 3, c: 4\<close> leaves
  \<open>a: 1, b: 3, c: 4\<close> in its record and in the store.
\<close>

theorem node_outputs_merge_witness:
  "entryOutputs (stateOf (executeNode quietEngine exampleRegistry chainAB (mkNode ''W'' ''writer'' [])
       freshState Map.empty emptyAliasMap None)) ''W''
     = Some (Some [(''a'', JNum 1), (''b'', JNum 3), (''c'', JNum 4)])
   \<and> map_of (nodeOutputs (stateOf (executeNode quietEngine exampleRegistry chainAB (mkNode ''W'' ''writer'' [])
       freshState Map.empty emptyAliasMap None))) ''W''
     = Some [(''a'', JNum 1), (''b'', JNum 3), (''c'', JNum 4)]"
proof -
  have reg: "exampleRegistry (node_type (mkNode ''W'' ''writer'' [])) = Some writerBlock"
    by (simp add: exampleRegistry_def mkNode_def)
  have upd: "threw (onNodeUpdate quietEngine (node_id (mkNode ''W'' ''writer'' [])) \<lparr>ne_nodeId = node_id (mkNode ''W'' ''writer'' []), ne_status = NRunning, ne_outputs = None, ne_error = None\<rparr>) = None"
    by (simp add: quietEngine_def quiet_def)
  have start: "node_type (mkNode ''W'' ''writer'' []) = ''starter'' \<or>
      threw (onLog quietEngine \<lparr>log_nodeId = Some (node_id (mkNode ''W'' ''writer'' [])),
         log_message = node_type (mkNode ''W'' ''writer'' []) @ '': '' @ node_id (mkNode ''W'' ''writer'' []),
         log_level = Info\<rparr>) = None"
    by (simp add: quietEngine_def quiet_def)
  have run: "writerBlock (makeContext chainAB Map.empty emptyAliasMap None (mkNode ''W'' ''writer'' []) freshState)
      = \<lparr>out_writes = [(''a'', JNum 1), (''b'', JNum 2)], out_logged = [''writing''],
      out_result = Returned (JObj [(''b'', JNum 3), (''c'', JNum 4)]), out_stopped = False\<rparr>"
    by (simp add: writerBlock_def)
  have ev: "assign ''c'' (JNum 4) (assign ''b'' (JNum 3) (assign ''b'' (JNum 2) (assign ''a'' (JNum 1) [])))
      = [(''a'', JNum 1), (''b'', JNum 3), (''c'', JNum 4)]"
    by code_simp
  show ?thesis
    using node_outputs_merge [where eng = quietEngine and reg = exampleRegistry
        and node = "mkNode ''W'' ''writer'' []" and blockConfig = writerBlock and wfl = chainAB
        and env = Map.empty and aliasMap = emptyAliasMap and singleNodeId = None and st = freshState
        and outcome = "\<lparr>out_writes = [(''a'', JNum 1), (''b'', JNum 2)], out_logged = [''writing''],
            out_result = Returned (JObj [(''b'', JNum 3), (''c'', JNum 4)]), out_stopped = False\<rparr>"
        and result = "JObj [(''b'', JNum 3), (''c'', JNum 4)]"]
      reg upd start run
    by (simp add: mkNode_def freshState_def slotOf_def spread_def returnOutputs_def ev)
qed

text \<open>
  C7 as stated fails for a block that returns a bare value: \<open>A\<close> returns 42, its record
  holds \<open>value: 42\<close>, the output store has no slot for \<open>A\<close>, and \<open>{{prev.value}}\<close> in
  the next node resolves to the empty string.
\<close>

theorem bare_value_not_mirrored_counterexample:
  "entryOutputs (stateOf (executeWorkflow quietEngine exampleRegistry bareValueChain Map.empty noOptions)) ''A''
     = Some (Some [(''value'', JNum 42)])
   \<and> map_of (nodeOutputs (stateOf (executeWorkflow quietEngine exampleRegistry bareValueChain Map.empty noOptions))) ''A''
     = None
   \<and> entryOutputs (stateOf (executeWorkflow quietEngine exampleRegistry bareValueChain Map.empty noOptions)) ''B''
     = Some (Some [(''msg'', JStr [])])"
  by code_simp

section \<open>Properties of the traversal\<close>

subsection \<open>What executing a node leaves untouched\<close>

lemma sameElsewhere_refl: "sameElsewhere nid st st"
  by (simp add: sameElsewhere_def)

lemma sameElsewhere_trans:
  "sameElsewhere nid a b \<Longrightarrow> sameElsewhere nid b c \<Longrightarrow> sameElsewhere nid a c"
  by (simp add: sameElsewhere_def)

lemma sameElsewhere_log: "sameElsewhere nid st (stateOf (log eng st lvl msg n))"
  by (simp add: sameElsewhere_def stateOf_log)

lemma sameElsewhere_keys:
  "sameElsewhere nid a b \<Longrightarrow> fst ` set (nodeExecutions (execution b)) = fst ` set (nodeExecutions (execution a))"
  by (metis sameElsewhere_def set_map)

lemma sameElsewhere_afterRun: "sameElsewhere (node_id node) st (afterRun node outcome st)"
  by (simp add: sameElsewhere_def afterRun_def map_of_writes)

lemma sameElsewhere_recordResult:
  assumes "node_id node \<in> fst ` set (nodeExecutions (execution st))"
  shows "sameElsewhere (node_id node) st (stateOf (recordResult eng node ne result st))"
  using assms
  by (auto simp: recordResult_def Let_def stateOf_log sameElsewhere_def putNodeExecution_def
      map_fst_assign_present map_of_assign split: jsval.splits)

lemma sameElsewhere_nodeFailed:
  assumes "node_id node \<in> fst ` set (nodeExecutions (execution st))"
  shows "sameElsewhere (node_id node) st (stateOf (nodeFailed eng node ne e st))"
  using assms
  by (auto simp: nodeFailed_def Let_def stateOf_rethrow stateOf_log sameElsewhere_def putNodeExecution_def
      map_fst_assign_present map_of_assign)

lemma sameElsewhere_nodeBody:
  assumes "node_id node \<in> fst ` set (nodeExecutions (execution st))"
  shows "sameElsewhere (node_id node) st (stateOf (nodeBody eng reg wfl env aliasMap singleNodeId node ne st))"
proof -
  let ?pre = "if node_type node \<noteq> ''starter''
        then log eng st Info (node_type node @ '': '' @ node_id node) (Some (node_id node)) else Ok st"
  have p: "sameElsewhere (node_id node) st (stateOf ?pre)"
    by (simp add: sameElsewhere_log sameElsewhere_refl)
  show ?thesis
  proof (cases ?pre)
    case (Raised e s1)
    then have "nodeBody eng reg wfl env aliasMap singleNodeId node ne st = Raised e s1"
      by (simp only: nodeBody_def andThen_def res.case)
    with p Raised show ?thesis by simp
  next
    case (Ok s1)
    with p have s1: "sameElsewhere (node_id node) st s1" by simp
    have k1: "node_id node \<in> fst ` set (nodeExecutions (execution s1))"
      using assms sameElsewhere_keys [OF s1] by simp
    have body: "nodeBody eng reg wfl env aliasMap singleNodeId node ne st =
       (case reg (node_type node) of
                 None \<Rightarrow>
                   Raised (ErrorObj (''Block type '' @ node_type node @ '' not found or not executable'')) s1
               | Some blockConfig \<Rightarrow>
                   (let outcome = blockConfig (makeContext wfl env aliasMap singleNodeId node s1);
                        st2 = afterRun node outcome s1
                    in case out_result outcome of
                         Threw e \<Rightarrow> Raised e st2
                       | Returned result \<Rightarrow> recordResult eng node ne result st2))"
      by (simp only: nodeBody_def Ok andThen_def res.case)
    show ?thesis
    proof (cases "reg (node_type node)")
      case None
      with body s1 show ?thesis by simp
    next
      case (Some blockConfig)
      let ?outcome = "blockConfig (makeContext wfl env aliasMap singleNodeId node s1)"
      have s2: "sameElsewhere (node_id node) st (afterRun node ?outcome s1)"
        using s1 sameElsewhere_afterRun by (rule sameElsewhere_trans)
      have k2: "node_id node \<in> fst ` set (nodeExecutions (execution (afterRun node ?outcome s1)))"
        using assms sameElsewhere_keys [OF s2] by simp
      show ?thesis
      proof (cases "out_result ?outcome")
        case (Threw e)
        with body Some s2 show ?thesis by (simp add: Let_def)
      next
        case (Returned result)
        with body Some have "nodeBody eng reg wfl env aliasMap singleNodeId node ne st
             = recordResult eng node ne result (afterRun node ?outcome s1)"
          by (simp add: Let_def)
        with s2 sameElsewhere_recordResult [OF k2] show ?thesis
          by (auto intro: sameElsewhere_trans)
      qed
    qed
  qed
qed

lemma sameElsewhere_heard: "sameElsewhere nid st (heard r st)"
  by (simp add: sameElsewhere_def)

lemma sameElsewhere_heard_right: "sameElsewhere nid a b \<Longrightarrow> sameElsewhere nid a (heard r b)"
  by (simp add: sameElsewhere_def)

lemma executeNode_frame:
  "sameElsewhere (node_id node)
     (putNodeExecution (node_id node)
        \<lparr>ne_nodeId = node_id node, ne_status = NRunning, ne_outputs = None, ne_error = None\<rparr> st)
     (stateOf (executeNode eng reg wfl node st env aliasMap singleNodeId))"
proof -
  let ?ne = "\<lparr>ne_nodeId = node_id node, ne_status = NRunning, ne_outputs = None, ne_error = None\<rparr>"
  let ?st0 = "putNodeExecution (node_id node) ?ne st"
  let ?st1 = "heard (onNodeUpdate eng (node_id node) ?ne) ?st0"
  have h: "sameElsewhere (node_id node) ?st0 ?st1"
    by (rule sameElsewhere_heard)
  have k1: "node_id node \<in> fst ` set (nodeExecutions (execution ?st1))"
    by (simp add: putNodeExecution_def keys_assign)
  let ?body = "nodeBody eng reg wfl env aliasMap singleNodeId node ?ne ?st1"
  have "sameElsewhere (node_id node) ?st1 (stateOf ?body)"
    using k1 by (rule sameElsewhere_nodeBody)
  with h have b: "sameElsewhere (node_id node) ?st0 (stateOf ?body)"
    by (rule sameElsewhere_trans)
  show ?thesis
  proof (cases "threw (onNodeUpdate eng (node_id node) ?ne)")
    case (Some e)
    then show ?thesis using h by (simp add: executeNode_def Let_def)
  next
    case None
    show ?thesis
    proof (cases ?body)
      case (Ok st2)
      with None b show ?thesis
        by (auto simp: executeNode_def Let_def sameElsewhere_heard_right split: option.splits)
    next
      case (Raised e st2)
      with b have b2: "sameElsewhere (node_id node) ?st0 st2" by simp
      have "node_id node \<in> fst ` set (nodeExecutions (execution st2))"
        using k1 sameElsewhere_keys [OF b2] sameElsewhere_keys [OF h] by simp
      then have "sameElsewhere (node_id node) st2 (stateOf (nodeFailed eng node ?ne e st2))"
        by (rule sameElsewhere_nodeFailed)
      with b2 Raised None show ?thesis
        by (auto simp: executeNode_def Let_def intro: sameElsewhere_trans)
    qed
  qed
qed

lemma executeNode_other:
  "k \<noteq> node_id node \<Longrightarrow>
   map_of (nodeExecutions (execution (stateOf (executeNode eng reg wfl node st env aliasMap singleNodeId)))) k
     = map_of (nodeExecutions (execution st)) k"
  using executeNode_frame [of node st eng reg wfl env aliasMap singleNodeId]
  by (simp add: sameElsewhere_def putNodeExecution_def map_of_assign)

lemma recordResult_Ok_success:
  "recordResult eng node ne result st = Ok st' \<Longrightarrow>
   \<exists>ne'. map_of (nodeExecutions (execution st')) (node_id node) = Some ne' \<and> ne_status ne' = NSuccess"
  by (auto simp: recordResult_def Let_def log_def putNodeExecution_def map_of_assign
      split: if_splits option.splits jsval.splits)

lemma nodeBody_Ok_success:
  assumes "nodeBody eng reg wfl env aliasMap singleNodeId node ne st = Ok st'"
  shows "\<exists>ne'. map_of (nodeExecutions (execution st')) (node_id node) = Some ne' \<and> ne_status ne' = NSuccess"
proof -
  from assms obtain result st2 where "recordResult eng node ne result st2 = Ok st'"
    by (auto simp: nodeBody_def andThen_def Let_def split: res.splits option.splits completion.splits)
  then show ?thesis by (rule recordResult_Ok_success)
qed

lemma nodeFailed_Raised: "\<exists>e' st'. nodeFailed eng node ne e st = Raised e' st'"
  by (simp add: nodeFailed_def Let_def split: res.splits)

lemma executeNode_Ok_success:
  assumes "executeNode eng reg wfl node st env aliasMap singleNodeId = Ok st'"
  shows "\<exists>ne'. map_of (nodeExecutions (execution st')) (node_id node) = Some ne' \<and> ne_status ne' = NSuccess"
proof -
  let ?ne = "\<lparr>ne_nodeId = node_id node, ne_status = NRunning, ne_outputs = None, ne_error = None\<rparr>"
  let ?body = "nodeBody eng reg wfl env aliasMap singleNodeId node ?ne
      (heard (onNodeUpdate eng (node_id node) ?ne) (putNodeExecution (node_id node) ?ne st))"
  show ?thesis
  proof (cases "threw (onNodeUpdate eng (node_id node) ?ne)")
    case (Some e)
    with assms show ?thesis by (simp add: executeNode_def Let_def)
  next
    case None
    show ?thesis
    proof (cases ?body)
      case (Raised e s)
      obtain e' s' where "nodeFailed eng node ?ne e s = Raised e' s'"
        using nodeFailed_Raised by blast
      with assms None Raised show ?thesis by (simp add: executeNode_def Let_def)
    next
      case (Ok st2)
      from nodeBody_Ok_success [OF Ok] obtain ne' where
        "map_of (nodeExecutions (execution st2)) (node_id node) = Some ne'" "ne_status ne' = NSuccess"
        by blast
      with assms None Ok show ?thesis
        by (auto simp: executeNode_def Let_def split: option.splits)
    qed
  qed
qed

lemma nodeCatch_state:
  "status (execution (stateOf (nodeCatch eng node e st))) = WError"
  "nodeExecutions (execution (stateOf (nodeCatch eng node e st))) = nodeExecutions (execution st)"
  "nodeOutputs (stateOf (nodeCatch eng node e st)) = nodeOutputs st"
  by (simp_all add: nodeCatch_def stateOf_rethrow stateOf_log setStatus_def)

lemma nodeCatch_Raised: "\<exists>e' st'. nodeCatch eng node e st = Raised e' st'"
  by (simp add: nodeCatch_def split: res.splits)

subsection \<open>The frame of \<open>executeWorkflow\<close>\<close>

lemma workflowCatch_state:
  "status (execution (stateOf (workflowCatch eng e st))) = WError"
  "nodeExecutions (execution (stateOf (workflowCatch eng e st))) = nodeExecutions (execution st)"
  "nodeOutputs (stateOf (workflowCatch eng e st)) = nodeOutputs st"
  "logs (execution (stateOf (workflowCatch eng e st))) = logs (execution st) @
     [\<lparr>log_nodeId = None, log_message = ''Workflow failed: '' @ errorMessage e, log_level = Err\<rparr>]"
  by (simp_all add: workflowCatch_def stateOf_log setStatus_def)

lemma settle_Raised: "settle eng (Raised e st) = workflowCatch eng e st"
  by (simp add: settle_def andThen_def)

lemma settle_Ok: "settle eng (Ok st) = (case completeRun eng st of Ok st' \<Rightarrow> Ok st' | Raised e st' \<Rightarrow> workflowCatch eng e st')"
  by (simp add: settle_def andThen_def)

lemma executeWorkflow_invalid:
  assumes "validateWorkflow wfl = Some e"
    and "threw (onLog eng \<lparr>log_nodeId = None, log_message = ''Starting workflow: '' @ wf_name wfl, log_level = Info\<rparr>) = None"
  shows "executeWorkflow eng reg wfl env options = workflowCatch eng e (startedState eng wfl options)"
  using assms by (simp add: executeWorkflow_def workflowBody_def log_def Let_def startedState_def)

lemma completeRun_status:
  "status (execution (stateOf (completeRun eng st))) =
     (if status (execution st) = WCancelled then WCancelled else WSuccess)"
  by (simp add: completeRun_def stateOf_log setStatus_def)

lemma settle_status:
  "status (execution (stateOf (settle eng r))) \<in> {WSuccess, WError, WCancelled}"
proof (cases r)
  case (Raised e st)
  then show ?thesis by (simp add: settle_Raised workflowCatch_state)
next
  case (Ok st)
  show ?thesis
  proof (cases "completeRun eng st")
    case (Ok st')
    with completeRun_status [of eng st] \<open>r = Ok st\<close> show ?thesis
      by (auto simp: settle_Ok split: if_splits)
  next
    case (Raised e st')
    with \<open>r = Ok st\<close> show ?thesis by (simp add: settle_Ok workflowCatch_state)
  qed
qed

lemma settle_quiet:
  assumes "\<forall>entry. threw (onLog eng entry) = None"
  shows "\<exists>st. settle eng r = Ok st"
  using assms
  by (cases r) (auto simp: settle_def andThen_def completeRun_def workflowCatch_def log_def Let_def)

subsection \<open>Failing nodes and the loop\<close>

lemma executeNode_body_raises:
  assumes "\<And>st1 :: run_state. nodeOutputs st1 = nodeOutputs st \<Longrightarrow>
      \<exists>e s. nodeBody eng reg wfl env aliasMap singleNodeId node
             \<lparr>ne_nodeId = node_id node, ne_status = NRunning, ne_outputs = None, ne_error = None\<rparr> st1
           = Raised e s"
  shows "\<exists>e st'. executeNode eng reg wfl node st env aliasMap singleNodeId = Raised e st'"
proof -
  let ?ne = "\<lparr>ne_nodeId = node_id node, ne_status = NRunning, ne_outputs = None, ne_error = None\<rparr>"
  let ?st1 = "heard (onNodeUpdate eng (node_id node) ?ne) (putNodeExecution (node_id node) ?ne st)"
  show ?thesis
  proof (cases "threw (onNodeUpdate eng (node_id node) ?ne)")
    case (Some e)
    then show ?thesis by (simp add: executeNode_def Let_def)
  next
    case None
    have "nodeOutputs ?st1 = nodeOutputs st" by (simp add: putNodeExecution_def)
    from assms [OF this] obtain e s where
      b: "nodeBody eng reg wfl env aliasMap singleNodeId node ?ne ?st1 = Raised e s" by blast
    obtain e' s' where "nodeFailed eng node ?ne e s = Raised e' s'"
      using nodeFailed_Raised by blast
    with None b show ?thesis by (simp add: executeNode_def Let_def)
  qed
qed

lemma executeNode_unregistered:
  assumes "reg (node_type node) = None"
  shows "\<exists>e st'. executeNode eng reg wfl node st env aliasMap singleNodeId = Raised e st'"
proof (rule executeNode_body_raises)
  fix st1 :: run_state
  show "\<exists>e s. nodeBody eng reg wfl env aliasMap singleNodeId node
             \<lparr>ne_nodeId = node_id node, ne_status = NRunning, ne_outputs = None, ne_error = None\<rparr> st1
           = Raised e s"
    using assms by (auto simp: nodeBody_def andThen_def split: res.splits)
qed

lemma executeNode_block_throws:
  assumes "reg (node_type node) = Some blockConfig"
    and "out_result (blockConfig (makeContext wfl env aliasMap singleNodeId node st)) = Threw e"
  shows "\<exists>e' st'. executeNode eng reg wfl node st env aliasMap singleNodeId = Raised e' st'"
proof (rule executeNode_body_raises)
  fix st1 :: run_state
  assume o1: "nodeOutputs st1 = nodeOutputs st"
  let ?ne = "\<lparr>ne_nodeId = node_id node, ne_status = NRunning, ne_outputs = None, ne_error = None\<rparr>"
  let ?pre = "if node_type node \<noteq> ''starter''
        then log eng st1 Info (node_type node @ '': '' @ node_id node) (Some (node_id node)) else Ok st1"
  show "\<exists>e s. nodeBody eng reg wfl env aliasMap singleNodeId node ?ne st1 = Raised e s"
  proof (cases ?pre)
    case (Raised e' s)
    then have "nodeBody eng reg wfl env aliasMap singleNodeId node ?ne st1 = Raised e' s"
      by (simp only: nodeBody_def andThen_def res.case)
    then show ?thesis by blast
  next
    case (Ok s1)
    have "nodeOutputs (stateOf ?pre) = nodeOutputs st"
      by (simp add: stateOf_log o1)
    with Ok have o: "nodeOutputs s1 = nodeOutputs st" by simp
    have "out_result (blockConfig (makeContext wfl env aliasMap singleNodeId node s1)) = Threw e"
      using assms(2) by (simp only: makeContext_outputs [OF o])
    then have "nodeBody eng reg wfl env aliasMap singleNodeId node ?ne st1
        = Raised e (afterRun node (blockConfig (makeContext wfl env aliasMap singleNodeId node s1)) s1)"
      by (simp only: nodeBody_def Ok andThen_def res.case) (simp add: assms(1) Let_def)
    then show ?thesis by blast
  qed
qed

lemma runQueue_node_raises:
  assumes "\<not> aborted st" and "nodeId \<notin> set visited"
    and "find (\<lambda>n. node_id n = nodeId) (nodes wfl) = Some node"
    and "executeNode eng reg wfl node st env aliasMap singleNodeId = Raised e st'"
  shows "runQueue eng reg wfl env aliasMap singleNodeId st visited (nodeId # queue)
           = (nodeCatch eng node e st', nodeId # visited)"
  using assms by (simp add: runQueue.simps)

lemma settle_nodeCatch:
  "status (execution (stateOf (settle eng (nodeCatch eng node e st)))) = WError"
  "nodeExecutions (execution (stateOf (settle eng (nodeCatch eng node e st)))) = nodeExecutions (execution st)"
  "nodeOutputs (stateOf (settle eng (nodeCatch eng node e st))) = nodeOutputs st"
proof -
  obtain e' s where r: "nodeCatch eng node e st = Raised e' s"
    using nodeCatch_Raised by blast
  then have s: "s = stateOf (nodeCatch eng node e st)" by simp
  show "status (execution (stateOf (settle eng (nodeCatch eng node e st)))) = WError"
    by (simp add: r settle_Raised workflowCatch_state)
  show "nodeExecutions (execution (stateOf (settle eng (nodeCatch eng node e st)))) = nodeExecutions (execution st)"
    by (simp add: r settle_Raised workflowCatch_state) (simp add: s nodeCatch_state)
  show "nodeOutputs (stateOf (settle eng (nodeCatch eng node e st))) = nodeOutputs st"
    by (simp add: r settle_Raised workflowCatch_state) (simp add: s nodeCatch_state)
qed

lemma successOrCarried_executeNode:
  assumes "successOrCarried c st" and "executeNode eng reg wfl node st env aliasMap singleNodeId = Ok st'"
  shows "successOrCarried c st'"
  unfolding successOrCarried_def
proof (intro allI impI)
  fix nid ne
  assume m: "map_of (nodeExecutions (execution st')) nid = Some ne"
  have st': "st' = stateOf (executeNode eng reg wfl node st env aliasMap singleNodeId)"
    using assms(2) by simp
  show "ne_status ne = NSuccess \<or> map_of c nid = Some ne"
  proof (cases "nid = node_id node")
    case True
    with executeNode_Ok_success [OF assms(2)] m show ?thesis by auto
  next
    case False
    then have "map_of (nodeExecutions (execution st)) nid = Some ne"
      using m executeNode_other [of nid node eng reg wfl st env aliasMap singleNodeId] st' by simp
    with assms(1) show ?thesis by (simp add: successOrCarried_def)
  qed
qed

lemma successOrCarried_runQueue:
  "successOrCarried c st \<Longrightarrow>
   fst (runQueue eng reg wfl env aliasMap singleNodeId st visited queue) = Ok st' \<Longrightarrow>
   successOrCarried c st'"
proof (induction eng reg wfl env aliasMap singleNodeId st visited queue arbitrary: st' rule: runQueue.induct)
  case (1 eng reg wfl env aliasMap singleNodeId st visited)
  then show ?case by (simp add: runQueue.simps)
next
  case (2 eng reg wfl env aliasMap singleNodeId st visited nodeId queue)
  show ?case
  proof (cases "aborted st")
    case True
    with "2.prems"(2) have "st' = setStatus WCancelled st" by (simp add: runQueue.simps)
    with "2.prems"(1) show ?thesis by (simp add: successOrCarried_def setStatus_def)
  next
    case na: False
    show ?thesis
    proof (cases "nodeId \<in> set visited")
      case True
      with na "2.prems" "2.IH"(1) show ?thesis by (simp add: runQueue.simps)
    next
      case nv: False
      show ?thesis
      proof (cases "find (\<lambda>n. node_id n = nodeId) (nodes wfl)")
        case None
        with na nv "2.prems" "2.IH"(2) show ?thesis by (simp add: runQueue.simps)
      next
        case (Some node)
        show ?thesis
        proof (cases "executeNode eng reg wfl node st env aliasMap singleNodeId")
          case (Raised e s)
          with na nv Some "2.prems"(2) nodeCatch_Raised [of eng node e s] show ?thesis by (auto simp: runQueue.simps)
        next
          case (Ok s)
          have "successOrCarried c s"
            using "2.prems"(1) Ok by (rule successOrCarried_executeNode)
          with na nv Some Ok "2.prems"(2) "2.IH"(3) show ?thesis by (simp add: runQueue.simps)
        qed
      qed
    qed
  qed
qed

subsection \<open>Restoring outputs, settling the run\<close>

lemma settle_frame:
  "nodeExecutions (execution (stateOf (settle eng r))) = nodeExecutions (execution (stateOf r))"
  "nodeOutputs (stateOf (settle eng r)) = nodeOutputs (stateOf r)"
proof -
  have "nodeExecutions (execution (stateOf (settle eng r))) = nodeExecutions (execution (stateOf r))
      \<and> nodeOutputs (stateOf (settle eng r)) = nodeOutputs (stateOf r)"
  proof (cases r)
    case (Raised e st)
    then show ?thesis by (simp add: settle_Raised workflowCatch_state)
  next
    case (Ok st)
    have c: "nodeExecutions (execution (stateOf (completeRun eng st))) = nodeExecutions (execution st)
        \<and> nodeOutputs (stateOf (completeRun eng st)) = nodeOutputs st"
      by (simp add: completeRun_def stateOf_log setStatus_def)
    show ?thesis
    proof (cases "completeRun eng st")
      case (Ok st')
      with c \<open>r = Ok st\<close> show ?thesis by (simp add: settle_Ok)
    next
      case (Raised e st')
      with c \<open>r = Ok st\<close> show ?thesis by (simp add: settle_Ok workflowCatch_state)
    qed
  qed
  then show "nodeExecutions (execution (stateOf (settle eng r))) = nodeExecutions (execution (stateOf r))"
    and "nodeOutputs (stateOf (settle eng r)) = nodeOutputs (stateOf r)"
    by simp_all
qed

lemma restoreOutputs_frame:
  "nodeExecutions (execution (stateOf (restoreOutputs eng entries st))) = nodeExecutions (execution st)
   \<and> status (execution (stateOf (restoreOutputs eng entries st))) = status (execution st)"
proof (induction entries arbitrary: st)
  case Nil
  show ?case by simp
next
  case (Cons entry entries)
  obtain nodeId ne where entry: "entry = (nodeId, ne)" by (cases entry)
  show ?case
  proof (cases "ne_outputs ne")
    case None
    with entry Cons show ?thesis by simp
  next
    case (Some outs)
    let ?l = "log eng (st\<lparr>nodeOutputs := assign nodeId outs (nodeOutputs st)\<rparr>) Info
               (''Restored outputs from previous execution: '' @ nodeId) None"
    have l: "nodeExecutions (execution (stateOf ?l)) = nodeExecutions (execution st)
       \<and> status (execution (stateOf ?l)) = status (execution st)"
      by (simp add: stateOf_log)
    show ?thesis
    proof (cases ?l)
      case (Raised e s)
      then have "restoreOutputs eng (entry # entries) st = Raised e s"
        using entry Some by (simp add: andThen_def)
      with l Raised show ?thesis by simp
    next
      case (Ok s)
      then have "restoreOutputs eng (entry # entries) st = restoreOutputs eng entries s"
        using entry Some by (simp add: andThen_def)
      with l Ok Cons [of s] show ?thesis by simp
    qed
  qed
qed

lemma restoreOutputs_store:
  assumes "restoreOutputs eng entries st = Ok st'" and "distinct (map fst entries)"
  shows "map_of (nodeOutputs st') k =
     (case map_of entries k of
        Some ne \<Rightarrow> (case ne_outputs ne of Some outs \<Rightarrow> Some outs | None \<Rightarrow> map_of (nodeOutputs st) k)
      | None \<Rightarrow> map_of (nodeOutputs st) k)"
  using assms
proof (induction entries arbitrary: st)
  case Nil
  then show ?case by simp
next
  case (Cons entry entries)
  obtain nodeId ne where entry: "entry = (nodeId, ne)" by (cases entry)
  from Cons.prems(2) entry have d: "distinct (map fst entries)" and fresh: "map_of entries nodeId = None"
    by (auto simp: map_of_eq_None_iff)
  show ?case
  proof (cases "ne_outputs ne")
    case None
    with entry Cons.prems(1) have "restoreOutputs eng entries st = Ok st'" by simp
    from Cons.IH [OF this d] None entry fresh show ?thesis by (auto split: option.splits)
  next
    case (Some outs)
    let ?l = "log eng (st\<lparr>nodeOutputs := assign nodeId outs (nodeOutputs st)\<rparr>) Info
               (''Restored outputs from previous execution: '' @ nodeId) None"
    from Cons.prems(1) entry Some obtain s where l: "?l = Ok s" and r: "restoreOutputs eng entries s = Ok st'"
      by (cases ?l) (auto simp: andThen_def)
    have "nodeOutputs (stateOf ?l) = assign nodeId outs (nodeOutputs st)"
      by (simp add: stateOf_log)
    with l have s: "nodeOutputs s = assign nodeId outs (nodeOutputs st)" by simp
    from Cons.IH [OF r d] s Some entry fresh show ?thesis
      by (auto simp: map_of_assign split: option.splits)
  qed
qed

lemma runQueue_single:
  assumes "presentId singleNodeId"
    and "find (\<lambda>n. node_id n = nodeId) (nodes wfl) = Some node"
  shows "runQueue eng reg wfl env aliasMap singleNodeId st [] [nodeId] =
     (if aborted st then (Ok (setStatus WCancelled st), [])
      else (case executeNode eng reg wfl node st env aliasMap singleNodeId of
              Raised e st' \<Rightarrow> nodeCatch eng node e st'
            | Ok st' \<Rightarrow> Ok st', [nodeId]))"
  using assms by (simp add: runQueue.simps enqueueNext_def split: res.splits)

lemma executeWorkflow_rejected:
  assumes "threw (onLog eng \<lparr>log_nodeId = None, log_message = ''Starting workflow: '' @ wf_name wfl, log_level = Info\<rparr>) = Some e"
  shows "executeWorkflow eng reg wfl env options = Raised e (startedState eng wfl options)"
  using assms by (simp add: executeWorkflow_def log_def Let_def startedState_def)

lemma executeWorkflow_started:
  assumes "threw (onLog eng \<lparr>log_nodeId = None, log_message = ''Starting workflow: '' @ wf_name wfl, log_level = Info\<rparr>) = None"
  shows "executeWorkflow eng reg wfl env options =
      (case workflowBody eng reg wfl env options (startedState eng wfl options) of
         Ok st' \<Rightarrow> Ok st' | Raised e st' \<Rightarrow> workflowCatch eng e st')"
  using assms by (simp add: executeWorkflow_def log_def Let_def startedState_def)

lemma workflowBody_cases:
  obtains (failed) e s where "workflowBody eng reg wfl env options st1 = Raised e s"
      and "nodeExecutions (execution s) = nodeExecutions (execution st1)"
      and "status (execution s) = status (execution st1)"
  | (walked) s startNode where "validateWorkflow wfl = None"
      and "(if presentId (singleNodeIdOf options)
            then restoreOutputs eng (nodeExecutions (execution st1)) st1 else Ok st1) = Ok s"
      and "findStartNode wfl (singleNodeIdOf options) = Some startNode"
      and "workflowBody eng reg wfl env options st1 =
             andThen (fst (runQueue eng reg wfl env (buildAliasMap (nodes wfl)) (singleNodeIdOf options) s []
                        [node_id startNode])) (completeRun eng)"
proof -
  let ?am = "buildAliasMap (nodes wfl)" and ?sid = "singleNodeIdOf options"
  let ?restored = "if presentId ?sid then restoreOutputs eng (nodeExecutions (execution st1)) st1 else Ok st1"
  have rf: "nodeExecutions (execution (stateOf ?restored)) = nodeExecutions (execution st1)
      \<and> status (execution (stateOf ?restored)) = status (execution st1)"
    using restoreOutputs_frame [of eng "nodeExecutions (execution st1)" st1] by simp
  show ?thesis
  proof (cases "validateWorkflow wfl")
    case (Some e)
    then have "workflowBody eng reg wfl env options st1 = Raised e st1"
      by (simp add: workflowBody_def)
    then show ?thesis by (rule failed) simp_all
  next
    case None
    show ?thesis
    proof (cases ?restored)
      case (Raised e s)
      then have "workflowBody eng reg wfl env options st1 = Raised e s"
        using None by (simp only: workflowBody_def Let_def andThen_def option.case res.case)
      moreover from rf Raised have "nodeExecutions (execution s) = nodeExecutions (execution st1)"
        and "status (execution s) = status (execution st1)" by simp_all
      ultimately show ?thesis by (rule failed)
    next
      case (Ok s)
      then have wb: "workflowBody eng reg wfl env options st1 =
          (case findStartNode wfl ?sid of
             None \<Rightarrow> Raised (ErrorObj (if presentId ?sid then ''Selected node not found''
                                              else ''Start node not found'')) s
           | Some startNode \<Rightarrow>
               andThen (fst (runQueue eng reg wfl env ?am ?sid s [] [node_id startNode])) (completeRun eng))"
        using None by (simp only: workflowBody_def Let_def andThen_def option.case res.case)
      from rf Ok have sf: "nodeExecutions (execution s) = nodeExecutions (execution st1)"
        "status (execution s) = status (execution st1)" by simp_all
      show ?thesis
      proof (cases "findStartNode wfl ?sid")
        case None
        with wb have "workflowBody eng reg wfl env options st1 =
            Raised (ErrorObj (if presentId ?sid then ''Selected node not found''
                                              else ''Start node not found'')) s"
          by simp
        then show ?thesis using sf by (rule failed)
      next
        case (Some startNode)
        with wb have "workflowBody eng reg wfl env options st1 =
            andThen (fst (runQueue eng reg wfl env ?am ?sid s [] [node_id startNode])) (completeRun eng)"
          by simp
        with \<open>validateWorkflow wfl = None\<close> Ok Some show ?thesis by (rule walked)
      qed
    qed
  qed
qed

lemma startedState_simps:
  "nodeExecutions (execution (startedState eng wfl options)) = nodeExecutions (initialExecution wfl options)"
  "status (execution (startedState eng wfl options)) = WRunning"
  "nodeOutputs (startedState eng wfl options) = []"
  "logs (execution (startedState eng wfl options)) = logs (initialExecution wfl options) @
     [\<lparr>log_nodeId = None, log_message = ''Starting workflow: '' @ wf_name wfl, log_level = Info\<rparr>]"
  "aborted (startedState eng wfl options) =
     called_stop (onLog eng \<lparr>log_nodeId = None, log_message = ''Starting workflow: '' @ wf_name wfl,
                               log_level = Info\<rparr>)"
  by (simp_all add: startedState_def stateOf_log initialExecution_def split: option.splits)

text \<open>Every run of \<open>executeWorkflow\<close> that gets past its first log line is of one of two kinds.\<close>

lemma executeWorkflow_started_cases:
  assumes "threw (onLog eng \<lparr>log_nodeId = None, log_message = ''Starting workflow: '' @ wf_name wfl, log_level = Info\<rparr>) = None"
  obtains (failed) e s where "executeWorkflow eng reg wfl env options = settle eng (Raised e s)"
      and "nodeExecutions (execution s) = nodeExecutions (initialExecution wfl options)"
  | (walked) s startNode where
      "executeWorkflow eng reg wfl env options =
         settle eng (fst (runQueue eng reg wfl env (buildAliasMap (nodes wfl)) (singleNodeIdOf options) s []
                       [node_id startNode]))"
      and "validateWorkflow wfl = None"
      and "(if presentId (singleNodeIdOf options)
            then restoreOutputs eng (nodeExecutions (initialExecution wfl options)) (startedState eng wfl options)
            else Ok (startedState eng wfl options)) = Ok s"
      and "findStartNode wfl (singleNodeIdOf options) = Some startNode"
proof -
  note ew = executeWorkflow_started [OF assms, of reg env options]
  show ?thesis
  proof (cases rule: workflowBody_cases [of eng reg wfl env options "startedState eng wfl options"])
    case (failed e s)
    then have "executeWorkflow eng reg wfl env options = settle eng (Raised e s)"
      by (simp add: ew settle_Raised)
    moreover have "nodeExecutions (execution s) = nodeExecutions (initialExecution wfl options)"
      using failed(2) by (simp add: startedState_simps)
    ultimately show ?thesis by (rule that(1))
  next
    case (walked s startNode)
    have eq: "executeWorkflow eng reg wfl env options =
         settle eng (fst (runQueue eng reg wfl env (buildAliasMap (nodes wfl)) (singleNodeIdOf options) s []
                       [node_id startNode]))"
      by (simp only: ew walked(4) settle_def)
    have r: "(if presentId (singleNodeIdOf options)
            then restoreOutputs eng (nodeExecutions (initialExecution wfl options)) (startedState eng wfl options)
            else Ok (startedState eng wfl options)) = Ok s"
      using walked(2) by (simp only: startedState_simps)
    show ?thesis by (rule that(2) [OF eq walked(1) r walked(3)])
  qed
qed

text \<open>Every run of \<open>executeWorkflow\<close> is of one of three kinds.\<close>

lemma executeWorkflow_cases:
  obtains (rejected) e where "executeWorkflow eng reg wfl env options = Raised e (startedState eng wfl options)"
  | (failed) e s where "executeWorkflow eng reg wfl env options = settle eng (Raised e s)"
      and "nodeExecutions (execution s) = nodeExecutions (initialExecution wfl options)"
  | (walked) s startNode where
      "executeWorkflow eng reg wfl env options =
         settle eng (fst (runQueue eng reg wfl env (buildAliasMap (nodes wfl)) (singleNodeIdOf options) s []
                       [node_id startNode]))"
      and "validateWorkflow wfl = None"
      and "(if presentId (singleNodeIdOf options)
            then restoreOutputs eng (nodeExecutions (initialExecution wfl options)) (startedState eng wfl options)
            else Ok (startedState eng wfl options)) = Ok s"
      and "findStartNode wfl (singleNodeIdOf options) = Some startNode"
proof (cases "threw (onLog eng \<lparr>log_nodeId = None, log_message = ''Starting workflow: '' @ wf_name wfl, log_level = Info\<rparr>)")
  case (Some e)
  then show ?thesis using executeWorkflow_rejected rejected by blast
next
  case None
  show ?thesis
  proof (cases rule: executeWorkflow_started_cases [OF None, of reg env options, case_names failed walked])
    case (failed e s)
    then show ?thesis by (rule that(2))
  next
    case (walked s startNode)
    then show ?thesis by (rule that(3))
  qed
qed

section \<open>Failure and cancellation\<close>

text \<open>
  C1, as the code has it. The loop is a tail recursion, so every pass of the \<open>while\<close>
  loop is a call of \<open>runQueue\<close> on the state, the visited set and the queue of that
  moment, and what the run returns is \<open>settle\<close> applied to that call. Whenever the node
  taken from the queue is executed and \<open>executeNode\<close> throws, the run ends there: the
  status is \<open>error\<close>, and the node records and the output store are those that
  \<open>executeNode\<close> left, so that no other node has been executed; the record of every
  node other than the failing one is what it was when the failing node was taken from
  the queue.
\<close>

theorem node_failure_ends_run:
  assumes "\<not> aborted st" and "nodeId \<notin> set visited"
    and "find (\<lambda>n. node_id n = nodeId) (nodes wfl) = Some node"
    and "executeNode eng reg wfl node st env aliasMap singleNodeId = Raised e st'"
  shows "status (execution (stateOf (settle eng
            (fst (runQueue eng reg wfl env aliasMap singleNodeId st visited (nodeId # queue)))))) = WError
    \<and> nodeExecutions (execution (stateOf (settle eng
            (fst (runQueue eng reg wfl env aliasMap singleNodeId st visited (nodeId # queue))))))
        = nodeExecutions (execution st')
    \<and> nodeOutputs (stateOf (settle eng
            (fst (runQueue eng reg wfl env aliasMap singleNodeId st visited (nodeId # queue)))))
        = nodeOutputs st'
    \<and> (\<forall>k. k \<noteq> nodeId \<longrightarrow>
          map_of (nodeExecutions (execution (stateOf (settle eng
            (fst (runQueue eng reg wfl env aliasMap singleNodeId st visited (nodeId # queue))))))) k
            = map_of (nodeExecutions (execution st)) k)"
proof -
  have id: "node_id node = nodeId"
    using assms(3) by (auto simp: find_Some_iff)
  have st': "st' = stateOf (executeNode eng reg wfl node st env aliasMap singleNodeId)"
    using assms(4) by simp
  show ?thesis
    by (simp only: runQueue_node_raises [OF assms] fst_conv settle_nodeCatch)
       (simp add: st' executeNode_other id)
qed

text \<open>\<open>A\<close> throws with \<open>B\<close> waiting behind it: the status is \<open>error\<close>, \<open>B\<close> has no record.\<close>

theorem node_failure_ends_run_witness:
  "status (execution (stateOf (settle quietEngine
      (fst (runQueue quietEngine exampleRegistry failingFanOut Map.empty emptyAliasMap None freshState [''S'']
         [''A'', ''B'']))))) = WError
   \<and> map_of (nodeExecutions (execution (stateOf (settle quietEngine
      (fst (runQueue quietEngine exampleRegistry failingFanOut Map.empty emptyAliasMap None freshState [''S'']
         [''A'', ''B'']))))))  ''B'' = None"
proof -
  have a: "\<not> aborted freshState" by (simp add: freshState_def)
  have v: "''A'' \<notin> set [''S'']" by simp
  have f: "find (\<lambda>n. node_id n = ''A'') (nodes failingFanOut) = Some (mkNode ''A'' ''boom'' [])"
    by (simp add: failingFanOut_def mkWorkflow_def mkNode_def)
  have r: "executeNode quietEngine exampleRegistry failingFanOut (mkNode ''A'' ''boom'' []) freshState
             Map.empty emptyAliasMap None
           = Raised (ErrorObj ''boom'')
               (stateOf (executeNode quietEngine exampleRegistry failingFanOut (mkNode ''A'' ''boom'' [])
                  freshState Map.empty emptyAliasMap None))"
    by code_simp
  have b: "map_of (nodeExecutions (execution freshState)) ''B'' = None"
    by (simp add: freshState_def)
  note ends = node_failure_ends_run [OF a v f r, of "[''B'']"]
  have 1: "status (execution (stateOf (settle quietEngine
      (fst (runQueue quietEngine exampleRegistry failingFanOut Map.empty emptyAliasMap None freshState [''S'']
         [''A'', ''B'']))))) = WError"
    by (rule ends [THEN conjunct1])
  have 2: "map_of (nodeExecutions (execution (stateOf (settle quietEngine
      (fst (runQueue quietEngine exampleRegistry failingFanOut Map.empty emptyAliasMap None freshState [''S'']
         [''A'', ''B'']))))))  ''B'' = map_of (nodeExecutions (execution freshState)) ''B''"
    by (rule ends [THEN conjunct2, THEN conjunct2, THEN conjunct2, rule_format]) simp
  show ?thesis
    using 1 2 b by simp
qed

text \<open>
  C1 as stated fails in two ways. In a full run that was handed a previous execution in
  which \<open>B\<close> had a record, \<open>A\<close> throws while \<open>B\<close> is behind it in the queue, and the returned
  snapshot still has the record of \<open>B\<close>. And in the workflow \<open>requeued\<close>, started afresh, \<open>X\<close>
  is put in the queue a second time after \<open>F\<close>; \<open>X\<close> runs from its first place in the queue,
  \<open>F\<close> throws, and \<open>X\<close>, which was enqueued after \<open>F\<close>, has a record.
\<close>

theorem queued_node_with_entry_counterexample:
  "status (execution (stateOf (executeWorkflow quietEngine exampleRegistry failingFanOut Map.empty
       fullRunWithPrior))) = WError
   \<and> map fst (nodeExecutions (execution (stateOf (executeWorkflow quietEngine exampleRegistry
       failingFanOut Map.empty fullRunWithPrior)))) = [''B'', ''S'', ''A'']
   \<and> map_option ne_status (map_of (nodeExecutions (execution (stateOf (executeWorkflow quietEngine
       exampleRegistry failingFanOut Map.empty fullRunWithPrior)))) ''A'') = Some NError
   \<and> map_of (nodeExecutions (execution (stateOf (executeWorkflow quietEngine exampleRegistry
       failingFanOut Map.empty fullRunWithPrior)))) ''B'' = Some (succeeded ''B'' [(''done'', JBool True)])
   \<and> map fst (nodeExecutions (execution (stateOf (executeWorkflow quietEngine exampleRegistry
       requeued Map.empty noOptions)))) = [''S'', ''P'', ''X'', ''F'']
   \<and> map_option ne_status (map_of (nodeExecutions (execution (stateOf (executeWorkflow quietEngine
       exampleRegistry requeued Map.empty noOptions)))) ''F'') = Some NError"
  by code_simp

text \<open>
  C9, as the code has it. \<open>stop()\<close> only raises the abort flag; the loop looks at the flag
  once per pass, before it takes a node from the queue. (1) When the loop finds the flag
  up with a node still in the queue, the run returns at once: the state is left as it is
  except for the status \<open>cancelled\<close>, so no further node is executed, the status is not
  overwritten, and no record is touched. (2) So when \<open>stop()\<close> comes while a node is being
  executed, and \<open>executeNode\<close> returns for that node, and a node is then in the queue, the
  run ends \<open>cancelled\<close> in the state that \<open>executeNode\<close> left. (3) Whenever a run ends with
  the status \<open>cancelled\<close>, the snapshot is returned (the promise is not rejected), and every
  node record in it is either marked \<open>success\<close> or is, unchanged, the record that the
  previous execution handed in held for that node: the run has marked no node \<open>error\<close>.
\<close>

theorem cancellation_ends_run:
  "(aborted st \<and> queue \<noteq> [] \<longrightarrow>
      settle eng (fst (runQueue eng reg wfl env aliasMap singleNodeId st visited queue))
        = Ok (setStatus WCancelled st))
   \<and> (\<not> aborted st \<and> nodeId \<notin> set visited
        \<and> find (\<lambda>n. node_id n = nodeId) (nodes wfl) = Some node
        \<and> executeNode eng reg wfl node st env aliasMap singleNodeId = Ok st'
        \<and> aborted st' \<and> enqueueNext wfl singleNodeId (nodeId # visited) nodeId queue \<noteq> [] \<longrightarrow>
      settle eng (fst (runQueue eng reg wfl env aliasMap singleNodeId st visited (nodeId # queue)))
        = Ok (setStatus WCancelled st'))
   \<and> (status (execution (stateOf (executeWorkflow eng reg wfl env options))) = WCancelled \<longrightarrow>
        executeWorkflow eng reg wfl env options = Ok (stateOf (executeWorkflow eng reg wfl env options))
        \<and> successOrCarried (nodeExecutions (initialExecution wfl options))
             (stateOf (executeWorkflow eng reg wfl env options)))"
proof (intro conjI impI)
  have up: "settle eng (fst (runQueue eng reg wfl env aliasMap singleNodeId s V Q)) = Ok (setStatus WCancelled s)"
    if "aborted s" and "Q \<noteq> []" for s V Q
    using that
    by (cases Q) (simp_all add: runQueue.simps settle_def andThen_def completeRun_def setStatus_def)
  {
    assume "aborted st \<and> queue \<noteq> []"
    then show "settle eng (fst (runQueue eng reg wfl env aliasMap singleNodeId st visited queue))
          = Ok (setStatus WCancelled st)"
      using up by simp
  next
    assume h: "\<not> aborted st \<and> nodeId \<notin> set visited
        \<and> find (\<lambda>n. node_id n = nodeId) (nodes wfl) = Some node
        \<and> executeNode eng reg wfl node st env aliasMap singleNodeId = Ok st'
        \<and> aborted st' \<and> enqueueNext wfl singleNodeId (nodeId # visited) nodeId queue \<noteq> []"
    then have "runQueue eng reg wfl env aliasMap singleNodeId st visited (nodeId # queue)
        = runQueue eng reg wfl env aliasMap singleNodeId st' (nodeId # visited)
            (enqueueNext wfl singleNodeId (nodeId # visited) nodeId queue)"
      by (simp add: runQueue.simps)
    with h up show "settle eng (fst (runQueue eng reg wfl env aliasMap singleNodeId st visited (nodeId # queue)))
          = Ok (setStatus WCancelled st')"
      by simp
  }
next
  assume c: "status (execution (stateOf (executeWorkflow eng reg wfl env options))) = WCancelled"
  have "executeWorkflow eng reg wfl env options = Ok (stateOf (executeWorkflow eng reg wfl env options))
        \<and> successOrCarried (nodeExecutions (initialExecution wfl options))
             (stateOf (executeWorkflow eng reg wfl env options))"
  proof (cases rule: executeWorkflow_cases [of eng reg wfl env options])
    case (rejected e)
    with c show ?thesis by (simp add: startedState_simps)
  next
    case (failed e s)
    with c show ?thesis by (simp add: settle_Raised workflowCatch_state)
  next
    case (walked s startNode)
    let ?r = "fst (runQueue eng reg wfl env (buildAliasMap (nodes wfl)) (singleNodeIdOf options) s []
                     [node_id startNode])"
    have s: "nodeExecutions (execution s) = nodeExecutions (initialExecution wfl options)"
      using walked(3)
        restoreOutputs_frame [of eng "nodeExecutions (initialExecution wfl options)" "startedState eng wfl options"]
      by (auto simp: startedState_simps split: if_splits)
    then have inv: "successOrCarried (nodeExecutions (initialExecution wfl options)) s"
      by (simp add: successOrCarried_def)
    show ?thesis
    proof (cases ?r)
      case (Raised e s')
      with c walked(1) show ?thesis by (simp add: settle_Raised workflowCatch_state)
    next
      case (Ok s')
      have inv': "successOrCarried (nodeExecutions (initialExecution wfl options)) s'"
        using inv Ok by (rule successOrCarried_runQueue)
      show ?thesis
      proof (cases "status (execution s') = WCancelled")
        case True
        then have "settle eng ?r = Ok s'"
          using Ok by (simp add: settle_Ok completeRun_def)
        with walked(1) inv' show ?thesis by simp
      next
        case False
        have "status (execution (stateOf (settle eng ?r))) \<noteq> WCancelled"
        proof (cases "completeRun eng s'")
          case (Ok s'')
          with completeRun_status [of eng s'] False \<open>?r = Ok s'\<close> show ?thesis
            by (simp add: settle_Ok)
        next
          case (Raised e s'')
          with \<open>?r = Ok s'\<close> show ?thesis by (simp add: settle_Ok workflowCatch_state)
        qed
        with c walked(1) show ?thesis by simp
      qed
    qed
  qed
  then show "executeWorkflow eng reg wfl env options = Ok (stateOf (executeWorkflow eng reg wfl env options))"
    and "successOrCarried (nodeExecutions (initialExecution wfl options))
             (stateOf (executeWorkflow eng reg wfl env options))"
    by simp_all
qed

text \<open>
  With the flag up and \<open>B\<close> in the queue the run is cancelled on the spot. In the chain
  \<open>S \<rightarrow> T \<rightarrow> B\<close>, \<open>stop()\<close> comes while \<open>T\<close> runs; \<open>T\<close> returns, \<open>B\<close> is enqueued and never
  executed, and the run ends \<open>cancelled\<close>, with only successful records.
\<close>

theorem cancellation_ends_run_witness:
  "settle quietEngine
      (fst (runQueue quietEngine exampleRegistry stoppedChain Map.empty emptyAliasMap None
         (freshState\<lparr>aborted := True\<rparr>) [''T'', ''S''] [''B'']))
     = Ok (setStatus WCancelled (freshState\<lparr>aborted := True\<rparr>))
   \<and> status (execution (stateOf (settle quietEngine
        (fst (runQueue quietEngine exampleRegistry stoppedChain Map.empty emptyAliasMap None
           freshState [''S''] [''T''])))))
       = WCancelled
   \<and> map_of (nodeExecutions (execution (stateOf (settle quietEngine
        (fst (runQueue quietEngine exampleRegistry stoppedChain Map.empty emptyAliasMap None
           freshState [''S''] [''T'']))))))  ''B'' = None
   \<and> status (execution (stateOf (executeWorkflow quietEngine exampleRegistry stoppedChain Map.empty noOptions)))
       = WCancelled
   \<and> executeWorkflow quietEngine exampleRegistry stoppedChain Map.empty noOptions
       = Ok (stateOf (executeWorkflow quietEngine exampleRegistry stoppedChain Map.empty noOptions))
   \<and> successOrCarried (nodeExecutions (initialExecution stoppedChain noOptions))
        (stateOf (executeWorkflow quietEngine exampleRegistry stoppedChain Map.empty noOptions))"
proof -
  let ?T = "mkNode ''T'' ''stopper'' []"
  let ?x = "executeNode quietEngine exampleRegistry stoppedChain ?T freshState Map.empty emptyAliasMap None"
  have a: "aborted (freshState\<lparr>aborted := True\<rparr>) \<and> [''B''] \<noteq> []" by simp
  have x: "?x = Ok (stateOf ?x)" "aborted (stateOf ?x)"
    "map_of (nodeExecutions (execution (stateOf ?x))) ''B'' = None"
    by code_simp+
  have b: "\<not> aborted freshState \<and> ''T'' \<notin> set [''S'']
        \<and> find (\<lambda>n. node_id n = ''T'') (nodes stoppedChain) = Some ?T
        \<and> ?x = Ok (stateOf ?x)
        \<and> aborted (stateOf ?x) \<and> enqueueNext stoppedChain None [''T'', ''S''] ''T'' [] \<noteq> []"
    using x(1,2) by (simp add: freshState_def) code_simp
  have c: "status (execution (stateOf (executeWorkflow quietEngine exampleRegistry stoppedChain Map.empty noOptions)))
       = WCancelled"
    by code_simp
  note ends = cancellation_ends_run [where st = "freshState\<lparr>aborted := True\<rparr>" and queue = "[''B'']"
      and eng = quietEngine and reg = exampleRegistry and wfl = stoppedChain and env = Map.empty
      and aliasMap = emptyAliasMap and singleNodeId = None and visited = "[''T'', ''S'']"
      and options = noOptions]
  note mid = cancellation_ends_run [where st = freshState and queue = "[]" and nodeId = "''T''"
      and node = ?T and st' = "stateOf ?x"
      and eng = quietEngine and reg = exampleRegistry and wfl = stoppedChain and env = Map.empty
      and aliasMap = emptyAliasMap and singleNodeId = None and visited = "[''S'']",
      THEN conjunct2, THEN conjunct1, rule_format, OF b]
  have m: "status (execution (stateOf (settle quietEngine
        (fst (runQueue quietEngine exampleRegistry stoppedChain Map.empty emptyAliasMap None
           freshState [''S''] [''T''])))))
       = WCancelled"
    "map_of (nodeExecutions (execution (stateOf (settle quietEngine
        (fst (runQueue quietEngine exampleRegistry stoppedChain Map.empty emptyAliasMap None
           freshState [''S''] [''T'']))))))  ''B'' = None"
    by (simp_all only: mid stateOf.simps) (simp_all add: setStatus_def x(3))
  show ?thesis
    using ends [THEN conjunct1, rule_format, OF a] ends [THEN conjunct2, THEN conjunct2, rule_format, OF c] c m
    by blast
qed

text \<open>
  C9 as stated fails when the node in flight throws after \<open>stop()\<close> was called. In the
  workflow \<open>haltedFanOut\<close>, \<open>stop()\<close> is called while \<open>T\<close> runs, with \<open>B\<close> waiting in the queue,
  and \<open>T\<close> then throws: the abort flag is up, yet the run ends with the status \<open>error\<close>, not
  \<open>cancelled\<close>, and \<open>T\<close> is marked \<open>error\<close>.
\<close>

theorem stop_then_throw_counterexample:
  "aborted (stateOf (settle quietEngine
      (fst (runQueue quietEngine exampleRegistry haltedFanOut Map.empty emptyAliasMap None
         freshState [''S''] [''T'', ''B'']))))
   \<and> status (execution (stateOf (settle quietEngine
      (fst (runQueue quietEngine exampleRegistry haltedFanOut Map.empty emptyAliasMap None
         freshState [''S''] [''T'', ''B'']))))) = WError
   \<and> aborted (stateOf (executeWorkflow quietEngine exampleRegistry haltedFanOut Map.empty noOptions))
   \<and> status (execution (stateOf (executeWorkflow quietEngine exampleRegistry haltedFanOut Map.empty noOptions)))
       = WError
   \<and> map_option ne_status (map_of (nodeExecutions (execution (stateOf (executeWorkflow quietEngine
        exampleRegistry haltedFanOut Map.empty noOptions)))) ''T'') = Some NError
   \<and> map_of (nodeExecutions (execution (stateOf (executeWorkflow quietEngine
        exampleRegistry haltedFanOut Map.empty noOptions)))) ''B'' = None"
  by code_simp

section \<open>What \<open>executeWorkflow\<close> returns\<close>

text \<open>
  C2, as the code has it. \<open>log\<close> calls the subscriber without guarding the call, so what
  holds is this: when the log subscriber never throws, \<open>executeWorkflow\<close> returns a snapshot
  whose status is \<open>success\<close>, \<open>error\<close> or \<open>cancelled\<close>, whatever the workflow, the
  environment, the options, the blocks and the \<open>onNodeUpdate\<close> subscriber do; a workflow that
  fails validation or has no start node gives the status \<open>error\<close>; and so does, at any pass
  of the loop, a node whose block type is not registered or whose block throws.
\<close>

theorem quiet_log_subscriber_returns_snapshot:
  assumes "\<forall>entry. threw (onLog eng entry) = None"
  shows "(\<exists>st. executeWorkflow eng reg wfl env options = Ok st
            \<and> status (execution st) \<in> {WSuccess, WError, WCancelled}
            \<and> (validateWorkflow wfl \<noteq> None \<or> findStartNode wfl (singleNodeIdOf options) = None
                  \<longrightarrow> status (execution st) = WError))
       \<and> (\<not> aborted s \<and> nodeId \<notin> set visited
            \<and> find (\<lambda>n. node_id n = nodeId) (nodes wfl) = Some node
            \<and> (reg (node_type node) = None
                 \<or> (\<exists>blockConfig e. reg (node_type node) = Some blockConfig
                       \<and> out_result (blockConfig (makeContext wfl env aliasMap singleNodeId node s)) = Threw e))
            \<longrightarrow> (\<exists>st. settle eng (fst (runQueue eng reg wfl env aliasMap singleNodeId s visited (nodeId # queue))) = Ok st
                      \<and> status (execution st) = WError))"
proof (intro conjI impI)
  have start: "threw (onLog eng \<lparr>log_nodeId = None, log_message = ''Starting workflow: '' @ wf_name wfl, log_level = Info\<rparr>) = None"
    using assms by simp
  show "\<exists>st. executeWorkflow eng reg wfl env options = Ok st
            \<and> status (execution st) \<in> {WSuccess, WError, WCancelled}
            \<and> (validateWorkflow wfl \<noteq> None \<or> findStartNode wfl (singleNodeIdOf options) = None
                  \<longrightarrow> status (execution st) = WError)"
  proof (cases rule: executeWorkflow_started_cases [OF start, of reg env options, case_names failed walked])
    case (failed e s')
    obtain st where st: "settle eng (Raised e s') = Ok st"
      using settle_quiet [OF assms] by blast
    moreover from st have "status (execution st) = WError"
      using workflowCatch_state(1) [of eng e s'] by (simp add: settle_Raised)
    ultimately show ?thesis using failed(1) by simp
  next
    case (walked s' startNode)
    let ?r = "fst (runQueue eng reg wfl env (buildAliasMap (nodes wfl)) (singleNodeIdOf options) s' []
                     [node_id startNode])"
    obtain st where st: "settle eng ?r = Ok st"
      using settle_quiet [OF assms] by blast
    have "findStartNode wfl (singleNodeIdOf options) \<noteq> None" "validateWorkflow wfl = None"
      using walked(2,4) by simp_all
    with settle_status [of eng ?r] walked(1) st show ?thesis by auto
  qed
next
  assume h: "\<not> aborted s \<and> nodeId \<notin> set visited
            \<and> find (\<lambda>n. node_id n = nodeId) (nodes wfl) = Some node
            \<and> (reg (node_type node) = None
                 \<or> (\<exists>blockConfig e. reg (node_type node) = Some blockConfig
                       \<and> out_result (blockConfig (makeContext wfl env aliasMap singleNodeId node s)) = Threw e))"
  have "\<exists>e s'. executeNode eng reg wfl node s env aliasMap singleNodeId = Raised e s'"
  proof (cases "reg (node_type node)")
    case None
    then show ?thesis by (rule executeNode_unregistered)
  next
    case (Some blockConfig)
    with h obtain e where "out_result (blockConfig (makeContext wfl env aliasMap singleNodeId node s)) = Threw e"
      by auto
    with Some show ?thesis by (rule executeNode_block_throws)
  qed
  then obtain e s' where r: "executeNode eng reg wfl node s env aliasMap singleNodeId = Raised e s'"
    by blast
  let ?r = "fst (runQueue eng reg wfl env aliasMap singleNodeId s visited (nodeId # queue))"
  have "runQueue eng reg wfl env aliasMap singleNodeId s visited (nodeId # queue)
          = (nodeCatch eng node e s', nodeId # visited)"
    using h r by (intro runQueue_node_raises) simp_all
  then have q: "?r = nodeCatch eng node e s'" by simp
  obtain st where st: "settle eng ?r = Ok st"
    using settle_quiet [OF assms] by blast
  have "status (execution (stateOf (settle eng ?r))) = WError"
    by (simp only: q settle_nodeCatch)
  with st show "\<exists>st. settle eng ?r = Ok st \<and> status (execution st) = WError"
    by simp
qed

text \<open>
  With quiet subscribers, the workflow without a start node and the node that throws
  both give a returned snapshot with the status \<open>error\<close>.
\<close>

theorem quiet_log_subscriber_returns_snapshot_witness:
  "executeWorkflow quietEngine exampleRegistry missingStarter Map.empty noOptions
     = Ok (stateOf (executeWorkflow quietEngine exampleRegistry missingStarter Map.empty noOptions))
   \<and> status (execution (stateOf (executeWorkflow quietEngine exampleRegistry missingStarter Map.empty noOptions)))
       = WError
   \<and> status (execution (stateOf (settle quietEngine
        (fst (runQueue quietEngine exampleRegistry failingFanOut Map.empty emptyAliasMap None freshState [''S'']
           [''A'', ''B'']))))) = WError"
proof -
  have q: "\<forall>entry. threw (onLog quietEngine entry) = None" by (simp add: quietEngine_def quiet_def)
  have v: "validateWorkflow missingStarter \<noteq> None
             \<or> findStartNode missingStarter (singleNodeIdOf noOptions) = None"
    by (simp add: validateWorkflow_def missingStarter_def mkWorkflow_def mkNode_def)
  have n: "\<not> aborted freshState \<and> ''A'' \<notin> set [''S'']
            \<and> find (\<lambda>n. node_id n = ''A'') (nodes failingFanOut) = Some (mkNode ''A'' ''boom'' [])
            \<and> (exampleRegistry (node_type (mkNode ''A'' ''boom'' [])) = None
                 \<or> (\<exists>blockConfig e. exampleRegistry (node_type (mkNode ''A'' ''boom'' [])) = Some blockConfig
                       \<and> out_result (blockConfig (makeContext failingFanOut Map.empty emptyAliasMap None
                            (mkNode ''A'' ''boom'' []) freshState)) = Threw e))"
    by (simp add: freshState_def failingFanOut_def mkWorkflow_def mkNode_def exampleRegistry_def failingBlock_def)
  note q1 = quiet_log_subscriber_returns_snapshot [OF q, where reg = exampleRegistry and wfl = missingStarter
      and env = Map.empty and options = noOptions, THEN conjunct1]
  note q2 = quiet_log_subscriber_returns_snapshot [OF q, where reg = exampleRegistry and wfl = failingFanOut
      and env = Map.empty and aliasMap = emptyAliasMap and singleNodeId = None and s = freshState
      and visited = "[''S'']" and nodeId = "''A''" and node = "mkNode ''A'' ''boom'' []" and queue = "[''B'']",
      THEN conjunct2, rule_format, OF n]
  from q1 v obtain st where "executeWorkflow quietEngine exampleRegistry missingStarter Map.empty noOptions = Ok st"
    and "status (execution st) = WError" by blast
  moreover from q2 obtain st' where "settle quietEngine
        (fst (runQueue quietEngine exampleRegistry failingFanOut Map.empty emptyAliasMap None freshState [''S'']
           [''A'', ''B''])) = Ok st'" and "status (execution st') = WError" by blast
  ultimately show ?thesis by simp
qed

text \<open>
  C2 as stated fails for a log subscriber that throws: the first log line is written
  outside the \<open>try\<close> block, the subscriber's error leaves \<open>executeWorkflow\<close>, and no snapshot
  is returned; the status is still \<open>running\<close>.
\<close>

theorem throwing_log_subscriber_counterexample:
  "executeWorkflow throwingLogEngine exampleRegistry chainAB Map.empty noOptions
     = Raised (ErrorObj ''subscriber failed'') (startedState throwingLogEngine chainAB noOptions)
   \<and> status (execution (startedState throwingLogEngine chainAB noOptions)) = WRunning"
  by code_simp

text \<open>
  C10, as the code has it. Whatever the options are, so also in single-node mode with
  the selected node present: when no node has the id \<open>starterId\<close> and the subscriber lets
  the first log line pass, the run ends with the status \<open>error\<close> and no node has been
  executed: the node records are those handed in, the output store is empty, and the
  log has grown by the start line and by the failure line, whose message names the
  missing start node, or the missing nodes when the node list is empty.
\<close>

theorem missing_starter_stops_run:
  assumes "find (\<lambda>node. node_id node = starterId wfl) (nodes wfl) = None"
    and "threw (onLog eng \<lparr>log_nodeId = None, log_message = ''Starting workflow: '' @ wf_name wfl, log_level = Info\<rparr>) = None"
  shows "status (execution (stateOf (executeWorkflow eng reg wfl env options))) = WError
    \<and> nodeExecutions (execution (stateOf (executeWorkflow eng reg wfl env options)))
        = nodeExecutions (initialExecution wfl options)
    \<and> nodeOutputs (stateOf (executeWorkflow eng reg wfl env options)) = []
    \<and> logs (execution (stateOf (executeWorkflow eng reg wfl env options)))
        = logs (initialExecution wfl options) @
          [\<lparr>log_nodeId = None, log_message = ''Starting workflow: '' @ wf_name wfl, log_level = Info\<rparr>,
           \<lparr>log_nodeId = None,
            log_message = ''Workflow failed: '' @
              (if nodes wfl = [] then ''Workflow has no nodes'' else ''Start node not found''),
            log_level = Err\<rparr>]"
proof -
  have v: "validateWorkflow wfl =
      Some (ErrorObj (if nodes wfl = [] then ''Workflow has no nodes'' else ''Start node not found''))"
    using assms(1) by (simp add: validateWorkflow_def)
  show ?thesis
    by (simp only: executeWorkflow_invalid [OF v assms(2)] workflowCatch_state startedState_simps)
       (simp add: errorMessage_def)
qed

text \<open>
  Re-running \<open>R\<close> alone on a workflow whose \<open>starterId\<close> names no node: \<open>R\<close> is there, the
  run ends in \<open>error\<close> with the records of the previous execution untouched.
\<close>

theorem missing_starter_stops_run_witness:
  "presentId (singleNodeIdOf rerunR)
   \<and> find (\<lambda>n. node_id n = ''R'') (nodes missingStarter) = Some (mkNode ''R'' ''reader'' [])
   \<and> status (execution (stateOf (executeWorkflow quietEngine exampleRegistry missingStarter Map.empty rerunR)))
       = WError
   \<and> nodeExecutions (execution (stateOf (executeWorkflow quietEngine exampleRegistry missingStarter Map.empty rerunR)))
       = nodeExecutions priorWithUpstream
   \<and> map log_message (logs (execution (stateOf (executeWorkflow quietEngine exampleRegistry missingStarter
         Map.empty rerunR))))
       = [''Starting workflow: example'', ''Workflow failed: Start node not found'']"
proof -
  have f: "find (\<lambda>node. node_id node = starterId missingStarter) (nodes missingStarter) = None"
    by (simp add: missingStarter_def mkWorkflow_def mkNode_def)
  have s: "threw (onLog quietEngine \<lparr>log_nodeId = None, log_message = ''Starting workflow: '' @ wf_name missingStarter,
      log_level = Info\<rparr>) = None"
    by (simp add: quietEngine_def quiet_def)
  have p: "presentId (singleNodeIdOf rerunR)
     \<and> find (\<lambda>n. node_id n = ''R'') (nodes missingStarter) = Some (mkNode ''R'' ''reader'' [])"
    by code_simp
  have i: "nodeExecutions (initialExecution missingStarter rerunR) = nodeExecutions priorWithUpstream"
    "logs (initialExecution missingStarter rerunR) = []" "nodes missingStarter \<noteq> []"
    "wf_name missingStarter = ''example''"
    by (simp_all add: initialExecution_def rerunR_def priorWithUpstream_def missingStarter_def mkWorkflow_def)
  show ?thesis
    using missing_starter_stops_run [OF f s, of exampleRegistry Map.empty rerunR] p
    by (simp add: i)
qed

text \<open>
  C10 as stated fails when the log subscriber throws on the first log line: the call is
  left before validation, the promise is rejected, the status is \<open>running\<close>, and the
  log has no failure line.
\<close>

theorem missing_starter_rejected_counterexample:
  "presentId (singleNodeIdOf rerunR)
   \<and> find (\<lambda>node. node_id node = starterId missingStarter) (nodes missingStarter) = None
   \<and> executeWorkflow throwingLogEngine exampleRegistry missingStarter Map.empty rerunR
       = Raised (ErrorObj ''subscriber failed'') (startedState throwingLogEngine missingStarter rerunR)
   \<and> status (execution (startedState throwingLogEngine missingStarter rerunR)) = WRunning
   \<and> map log_message (logs (execution (startedState throwingLogEngine missingStarter rerunR))) = [''Starting workflow: example'']"
  by code_simp

section \<open>Single-node mode\<close>

lemma findStartNode_single:
  assumes "presentId singleNodeId" and "findStartNode wfl singleNodeId = Some node"
  shows "singleNodeId = Some (node_id node)"
    and "find (\<lambda>n. node_id n = node_id node) (nodes wfl) = Some node"
proof -
  from assms(1) obtain c where c: "singleNodeId = Some c"
    by (cases singleNodeId) (simp_all add: presentId_def)
  with assms have f: "find (\<lambda>n. node_id n = c) (nodes wfl) = Some node"
    by (simp add: findStartNode_def)
  then have "node_id node = c" by (auto simp: find_Some_iff)
  with c f show "singleNodeId = Some (node_id node)"
    and "find (\<lambda>n. node_id n = node_id node) (nodes wfl) = Some node"
    by simp_all
qed

lemma single_step_others:
  assumes "k \<noteq> node_id node"
  shows "map_of (nodeExecutions (execution (stateOf
           (if aborted s then Ok (setStatus WCancelled s)
            else case executeNode eng reg wfl node s env aliasMap singleNodeId of
                   Raised e st' \<Rightarrow> nodeCatch eng node e st' | Ok st' \<Rightarrow> Ok st')))) k
         = map_of (nodeExecutions (execution s)) k"
proof (cases "aborted s")
  case True
  then show ?thesis by (simp add: setStatus_def)
next
  case False
  show ?thesis
  proof (cases "executeNode eng reg wfl node s env aliasMap singleNodeId")
    case (Ok st')
    with False executeNode_other [OF assms, of eng reg wfl s env aliasMap singleNodeId] show ?thesis by simp
  next
    case (Raised e st')
    with False executeNode_other [OF assms, of eng reg wfl s env aliasMap singleNodeId] show ?thesis
      by (simp add: nodeCatch_state)
  qed
qed

text \<open>
  C8. In single-node mode: (1) whatever happens, the record of every node other than the
  selected one is, at the end, the record the previous execution held for it, so no
  other node is executed. (2) Once the outputs of the previous execution have been
  restored (the keys of its node records being distinct, as the keys of an object are),
  the store holds the recorded outputs of every node that had any, and \<open>getNodeOutput\<close> in
  the context of the selected node reads them: asked for such a node, it answers from
  the recorded outputs, the key being looked up in them, or all of them given when no
  key is asked for. The two special arguments of \<open>getNodeOutput\<close> keep their meaning: \<open>*\<close>
  stands for the whole store, and \<open>prev\<close>, when the selected node has a single
  predecessor, for that predecessor. (3) A run that passes validation and finds the
  selected node consists of that restoration and then of one pass of the loop, which
  takes only the selected node from the queue: either one call of \<open>executeNode\<close> on the
  selected node in the restored state, or, when a subscriber has called \<open>stop()\<close> by
  then, no call at all; nothing is enqueued after it.
\<close>

theorem single_node_run:
  assumes single: "presentId (singleNodeIdOf options)"
  shows "(\<forall>k. Some k \<noteq> singleNodeIdOf options \<longrightarrow>
            map_of (nodeExecutions (execution (stateOf (executeWorkflow eng reg wfl env options)))) k
              = map_of (nodeExecutions (initialExecution wfl options)) k)
     \<and> (distinct (map fst (nodeExecutions (initialExecution wfl options)))
          \<and> restoreOutputs eng (nodeExecutions (initialExecution wfl options)) (startedState eng wfl options) = Ok s
          \<and> map_of (nodeExecutions (initialExecution wfl options)) upstream = Some ne
          \<and> ne_outputs ne = Some outs
          \<longrightarrow> map_of (nodeOutputs s) upstream = Some outs
              \<and> getNodeOutput (makeContext wfl env aliasMap (singleNodeIdOf options) node s) upstream key
                  = (if upstream = ''*'' then JObj (map (\<lambda>kv. (fst kv, JObj (snd kv))) (nodeOutputs s))
                     else case prevIdOf wfl (node_id node) of
                            None \<Rightarrow> readSlot (Some outs) key
                          | Some p \<Rightarrow> if upstream = ''prev'' \<and> p \<noteq> []
                                      then readSlot (map_of (nodeOutputs s) p) key
                                      else readSlot (Some outs) key))
     \<and> (threw (onLog eng \<lparr>log_nodeId = None, log_message = ''Starting workflow: '' @ wf_name wfl, log_level = Info\<rparr>) = None
          \<and> validateWorkflow wfl = None
          \<and> restoreOutputs eng (nodeExecutions (initialExecution wfl options)) (startedState eng wfl options) = Ok s
          \<and> findStartNode wfl (singleNodeIdOf options) = Some node
          \<longrightarrow> executeWorkflow eng reg wfl env options =
                settle eng
                  (if aborted s then Ok (setStatus WCancelled s)
                   else case executeNode eng reg wfl node s env (buildAliasMap (nodes wfl)) (singleNodeIdOf options) of
                          Raised e st' \<Rightarrow> nodeCatch eng node e st'
                        | Ok st' \<Rightarrow> Ok st')
              \<and> snd (runQueue eng reg wfl env (buildAliasMap (nodes wfl)) (singleNodeIdOf options) s []
                       [node_id node])
                  = (if aborted s then [] else [node_id node]))"
proof (intro conjI allI impI)
  fix k
  assume k: "Some k \<noteq> singleNodeIdOf options"
  show "map_of (nodeExecutions (execution (stateOf (executeWorkflow eng reg wfl env options)))) k
              = map_of (nodeExecutions (initialExecution wfl options)) k"
  proof (cases rule: executeWorkflow_cases [of eng reg wfl env options])
    case (rejected e)
    then show ?thesis by (simp add: startedState_simps)
  next
    case (failed e s')
    then show ?thesis by (simp add: settle_frame)
  next
    case (walked s' startNode)
    from walked(3) single
    have r: "restoreOutputs eng (nodeExecutions (initialExecution wfl options)) (startedState eng wfl options) = Ok s'"
      by simp
    have fr: "nodeExecutions (execution s') = nodeExecutions (initialExecution wfl options)"
      using restoreOutputs_frame [of eng "nodeExecutions (initialExecution wfl options)" "startedState eng wfl options"] r
      by (simp add: startedState_simps)
    note fs = findStartNode_single [OF single walked(4)]
    have kn: "k \<noteq> node_id startNode" using k fs(1) by auto
    have "fst (runQueue eng reg wfl env (buildAliasMap (nodes wfl)) (singleNodeIdOf options) s' [] [node_id startNode])
        = (if aborted s' then Ok (setStatus WCancelled s')
           else case executeNode eng reg wfl startNode s' env (buildAliasMap (nodes wfl)) (singleNodeIdOf options) of
                  Raised e st' \<Rightarrow> nodeCatch eng startNode e st' | Ok st' \<Rightarrow> Ok st')"
      by (simp add: runQueue_single [OF single fs(2)])
    then show ?thesis
      by (simp only: walked(1) settle_frame single_step_others [OF kn] fr)
  qed
next
  assume h: "distinct (map fst (nodeExecutions (initialExecution wfl options)))
          \<and> restoreOutputs eng (nodeExecutions (initialExecution wfl options)) (startedState eng wfl options) = Ok s
          \<and> map_of (nodeExecutions (initialExecution wfl options)) upstream = Some ne
          \<and> ne_outputs ne = Some outs"
  then have "map_of (nodeOutputs s) upstream =
     (case map_of (nodeExecutions (initialExecution wfl options)) upstream of
        Some ne \<Rightarrow> (case ne_outputs ne of Some outs \<Rightarrow> Some outs
                     | None \<Rightarrow> map_of (nodeOutputs (startedState eng wfl options)) upstream)
      | None \<Rightarrow> map_of (nodeOutputs (startedState eng wfl options)) upstream)"
    using restoreOutputs_store [of eng "nodeExecutions (initialExecution wfl options)"
        "startedState eng wfl options" s upstream]
    by simp
  with h show m: "map_of (nodeOutputs s) upstream = Some outs" by simp
  then show "getNodeOutput (makeContext wfl env aliasMap (singleNodeIdOf options) node s) upstream key
                  = (if upstream = ''*'' then JObj (map (\<lambda>kv. (fst kv, JObj (snd kv))) (nodeOutputs s))
                     else case prevIdOf wfl (node_id node) of
                            None \<Rightarrow> readSlot (Some outs) key
                          | Some p \<Rightarrow> if upstream = ''prev'' \<and> p \<noteq> []
                                      then readSlot (map_of (nodeOutputs s) p) key
                                      else readSlot (Some outs) key)"
    by (auto simp: getNodeOutput_def makeContext_def readSlot_def Let_def split: option.splits)
next
  assume h: "threw (onLog eng \<lparr>log_nodeId = None, log_message = ''Starting workflow: '' @ wf_name wfl, log_level = Info\<rparr>) = None
          \<and> validateWorkflow wfl = None
          \<and> restoreOutputs eng (nodeExecutions (initialExecution wfl options)) (startedState eng wfl options) = Ok s
          \<and> findStartNode wfl (singleNodeIdOf options) = Some node"
  then have r: "restoreOutputs eng (nodeExecutions (execution (startedState eng wfl options)))
                  (startedState eng wfl options) = Ok s"
    by (simp add: startedState_simps)
  note fs = findStartNode_single [OF single h [THEN conjunct2, THEN conjunct2, THEN conjunct2]]
  note rq = runQueue_single [OF single fs(2), of eng reg env "buildAliasMap (nodes wfl)" s]
  have "workflowBody eng reg wfl env options (startedState eng wfl options) =
      andThen (fst (runQueue eng reg wfl env (buildAliasMap (nodes wfl)) (singleNodeIdOf options) s []
                      [node_id node]))
        (completeRun eng)"
    using h single by (simp only: workflowBody_def Let_def r andThen_def option.case res.case if_True)
  moreover have "fst (runQueue eng reg wfl env (buildAliasMap (nodes wfl)) (singleNodeIdOf options) s []
                      [node_id node])
      = (if aborted s then Ok (setStatus WCancelled s)
         else case executeNode eng reg wfl node s env (buildAliasMap (nodes wfl)) (singleNodeIdOf options) of
                Raised e st' \<Rightarrow> nodeCatch eng node e st'
              | Ok st' \<Rightarrow> Ok st')"
    by (simp add: rq)
  ultimately show "executeWorkflow eng reg wfl env options =
                settle eng
                  (if aborted s then Ok (setStatus WCancelled s)
                   else case executeNode eng reg wfl node s env (buildAliasMap (nodes wfl)) (singleNodeIdOf options) of
                          Raised e st' \<Rightarrow> nodeCatch eng node e st'
                        | Ok st' \<Rightarrow> Ok st')"
    using h by (simp only: executeWorkflow_started settle_def)
  show "snd (runQueue eng reg wfl env (buildAliasMap (nodes wfl)) (singleNodeIdOf options) s []
                       [node_id node])
                  = (if aborted s then [] else [node_id node])"
    by (simp add: rq)
qed

text \<open>
  The previous execution recorded \<open>value: 42\<close> for \<open>upstream\<close>. Re-running \<open>R\<close> alone
  leaves that record as it was and creates none for the starter; \<open>R\<close> reads 42 through
  \<open>getNodeOutput\<close> and records it; \<open>R\<close> is the only node visited. With a log subscriber
  that calls \<open>stop()\<close> on hearing of the restored outputs, the run ends \<open>cancelled\<close>, the
  record of \<open>upstream\<close> is as it was, and \<open>R\<close> has none.
\<close>

theorem single_node_run_witness:
  "presentId (singleNodeIdOf rerunR)
   \<and> map_of (nodeExecutions (execution (stateOf (executeWorkflow quietEngine exampleRegistry readerWorkflow
        Map.empty rerunR)))) ''upstream'' = Some (succeeded ''upstream'' [(''value'', JNum 42)])
   \<and> map_of (nodeExecutions (execution (stateOf (executeWorkflow quietEngine exampleRegistry readerWorkflow
        Map.empty rerunR)))) ''S'' = None
   \<and> getNodeOutput (makeContext readerWorkflow Map.empty (buildAliasMap (nodes readerWorkflow))
        (singleNodeIdOf rerunR) (mkNode ''R'' ''reader'' [])
        (stateOf (restoreOutputs quietEngine (nodeExecutions (initialExecution readerWorkflow rerunR))
           (startedState quietEngine readerWorkflow rerunR)))) ''upstream'' (Some ''value'') = JNum 42
   \<and> entryOutputs (stateOf (executeWorkflow quietEngine exampleRegistry readerWorkflow Map.empty rerunR)) ''R''
       = Some (Some [(''seen'', JNum 42)])
   \<and> snd (runQueue quietEngine exampleRegistry readerWorkflow Map.empty (buildAliasMap (nodes readerWorkflow))
        (singleNodeIdOf rerunR)
        (stateOf (restoreOutputs quietEngine (nodeExecutions (initialExecution readerWorkflow rerunR))
           (startedState quietEngine readerWorkflow rerunR))) [] [''R'']) = [''R'']
   \<and> status (execution (stateOf (executeWorkflow stoppingLogEngine exampleRegistry readerWorkflow
        Map.empty rerunR))) = WCancelled
   \<and> map_of (nodeExecutions (execution (stateOf (executeWorkflow stoppingLogEngine exampleRegistry
        readerWorkflow Map.empty rerunR)))) ''upstream'' = Some (succeeded ''upstream'' [(''value'', JNum 42)])
   \<and> map_of (nodeExecutions (execution (stateOf (executeWorkflow stoppingLogEngine exampleRegistry
        readerWorkflow Map.empty rerunR)))) ''R'' = None"
proof -
  let ?s = "stateOf (restoreOutputs quietEngine (nodeExecutions (initialExecution readerWorkflow rerunR))
           (startedState quietEngine readerWorkflow rerunR))"
  have p: "presentId (singleNodeIdOf rerunR)" by code_simp
  have i: "nodeExecutions (initialExecution readerWorkflow rerunR)
      = [(''upstream'', succeeded ''upstream'' [(''value'', JNum 42)])]"
    by (simp add: initialExecution_def rerunR_def priorWithUpstream_def)
  have k: "Some ''upstream'' \<noteq> singleNodeIdOf rerunR" "Some ''S'' \<noteq> singleNodeIdOf rerunR"
    by code_simp+
  have r: "restoreOutputs quietEngine (nodeExecutions (initialExecution readerWorkflow rerunR))
           (startedState quietEngine readerWorkflow rerunR) = Ok ?s"
    by code_simp
  have na: "\<not> aborted ?s"
    by code_simp
  have h2: "distinct (map fst (nodeExecutions (initialExecution readerWorkflow rerunR)))
          \<and> restoreOutputs quietEngine (nodeExecutions (initialExecution readerWorkflow rerunR))
               (startedState quietEngine readerWorkflow rerunR) = Ok ?s
          \<and> map_of (nodeExecutions (initialExecution readerWorkflow rerunR)) ''upstream''
               = Some (succeeded ''upstream'' [(''value'', JNum 42)])
          \<and> ne_outputs (succeeded ''upstream'' [(''value'', JNum 42)]) = Some [(''value'', JNum 42)]"
    using r by (simp add: i succeeded_def)
  have h3: "threw (onLog quietEngine \<lparr>log_nodeId = None, log_message = ''Starting workflow: '' @ wf_name readerWorkflow,
        log_level = Info\<rparr>) = None
      \<and> validateWorkflow readerWorkflow = None
      \<and> restoreOutputs quietEngine (nodeExecutions (initialExecution readerWorkflow rerunR))
               (startedState quietEngine readerWorkflow rerunR) = Ok ?s
      \<and> findStartNode readerWorkflow (singleNodeIdOf rerunR) = Some (mkNode ''R'' ''reader'' [])"
    using r by (simp add: quietEngine_def quiet_def) code_simp
  have pv: "prevIdOf readerWorkflow (node_id (mkNode ''R'' ''reader'' [])) = Some ''upstream''"
    by code_simp
  note t = single_node_run [OF p, where eng = quietEngine and reg = exampleRegistry and wfl = readerWorkflow
      and env = Map.empty and s = ?s and upstream = "''upstream''"
      and ne = "succeeded ''upstream'' [(''value'', JNum 42)]" and outs = "[(''value'', JNum 42)]"
      and key = "Some ''value''" and aliasMap = "buildAliasMap (nodes readerWorkflow)"
      and node = "mkNode ''R'' ''reader'' []"]
  have 1: "map_of (nodeExecutions (execution (stateOf (executeWorkflow quietEngine exampleRegistry readerWorkflow
        Map.empty rerunR)))) ''upstream'' = Some (succeeded ''upstream'' [(''value'', JNum 42)])"
    using t [THEN conjunct1, rule_format, OF k(1)] by (simp add: i)
  have 2: "map_of (nodeExecutions (execution (stateOf (executeWorkflow quietEngine exampleRegistry readerWorkflow
        Map.empty rerunR)))) ''S'' = None"
    using t [THEN conjunct1, rule_format, OF k(2)] by (simp add: i)
  have 3: "getNodeOutput (makeContext readerWorkflow Map.empty (buildAliasMap (nodes readerWorkflow))
        (singleNodeIdOf rerunR) (mkNode ''R'' ''reader'' []) ?s) ''upstream'' (Some ''value'') = JNum 42"
    using t [THEN conjunct2, THEN conjunct1, rule_format, OF h2, THEN conjunct2]
    by (simp add: pv readSlot_def presentId_def getProp_def)
  note t3 = t [THEN conjunct2, THEN conjunct2, rule_format, OF h3]
  have 4: "executeWorkflow quietEngine exampleRegistry readerWorkflow Map.empty rerunR =
        settle quietEngine
          (case executeNode quietEngine exampleRegistry readerWorkflow (mkNode ''R'' ''reader'' []) ?s Map.empty
                  (buildAliasMap (nodes readerWorkflow)) (singleNodeIdOf rerunR) of
             Raised e st' \<Rightarrow> nodeCatch quietEngine (mkNode ''R'' ''reader'' []) e st'
           | Ok st' \<Rightarrow> Ok st')"
    using t3 [THEN conjunct1] na by (simp only: if_False)
  have 5: "entryOutputs (stateOf (settle quietEngine
          (case executeNode quietEngine exampleRegistry readerWorkflow (mkNode ''R'' ''reader'' []) ?s Map.empty
                  (buildAliasMap (nodes readerWorkflow)) (singleNodeIdOf rerunR) of
             Raised e st' \<Rightarrow> nodeCatch quietEngine (mkNode ''R'' ''reader'' []) e st'
           | Ok st' \<Rightarrow> Ok st'))) ''R'' = Some (Some [(''seen'', JNum 42)])"
    by code_simp
  have 6: "snd (runQueue quietEngine exampleRegistry readerWorkflow Map.empty (buildAliasMap (nodes readerWorkflow))
        (singleNodeIdOf rerunR) ?s [] [''R'']) = [''R'']"
    using t3 [THEN conjunct2] na by (simp add: mkNode_def)
  have 7: "status (execution (stateOf (executeWorkflow stoppingLogEngine exampleRegistry readerWorkflow
        Map.empty rerunR))) = WCancelled"
    "map_of (nodeExecutions (execution (stateOf (executeWorkflow stoppingLogEngine exampleRegistry
        readerWorkflow Map.empty rerunR)))) ''R'' = None"
    by code_simp+
  have 8: "map_of (nodeExecutions (execution (stateOf (executeWorkflow stoppingLogEngine exampleRegistry
        readerWorkflow Map.empty rerunR)))) ''upstream'' = Some (succeeded ''upstream'' [(''value'', JNum 42)])"
    using single_node_run [OF p, where eng = stoppingLogEngine and reg = exampleRegistry
        and wfl = readerWorkflow and env = Map.empty, THEN conjunct1, rule_format, OF k(1)]
    by (simp add: i)
  show ?thesis
    using p 1 2 3 5 6 7 8 by (simp only: 4 simp_thms)
qed
section \<open>Order of visits\<close>

subsection \<open>The order as a function of the graph\<close>

lemma successors_set:
  "set (map node_id (filter (\<lambda>n. node_id n \<notin> set V) (getConnectedNodes wfl q)))
     = {b. (q, b) \<in> edgeRel wfl \<and> b \<notin> set V}"
proof (intro set_eqI iffI)
  fix b
  assume "b \<in> set (map node_id (filter (\<lambda>n. node_id n \<notin> set V) (getConnectedNodes wfl q)))"
  then obtain n e where "n \<in> set (nodes wfl)" "node_id n = b" "b \<notin> set V"
    "e \<in> set (edges wfl)" "edge_source e = q" "edge_target e = b"
    by (auto simp: getConnectedNodes_def Let_def)
  then show "b \<in> {b. (q, b) \<in> edgeRel wfl \<and> b \<notin> set V}"
    by (auto simp: edgeRel_def)
next
  fix b
  assume "b \<in> {b. (q, b) \<in> edgeRel wfl \<and> b \<notin> set V}"
  then obtain n e where n: "n \<in> set (nodes wfl)" "node_id n = b" "b \<notin> set V"
    and e: "e \<in> set (edges wfl)" "edge_source e = q" "edge_target e = b"
    by (auto simp: edgeRel_def)
  from e have "b \<in> set (map edge_target (filter (\<lambda>edge. edge_source edge = q) (edges wfl)))"
    by force
  with n have "n \<in> set (filter (\<lambda>n. node_id n \<notin> set V) (getConnectedNodes wfl q))"
    by (simp add: getConnectedNodes_def Let_def)
  with n(2) show "b \<in> set (map node_id (filter (\<lambda>n. node_id n \<notin> set V) (getConnectedNodes wfl q)))"
    by force
qed

lemma successors_order:
  "map node_id (getConnectedNodes wfl q) = filter (\<lambda>i. (q, i) \<in> edgeRel wfl) (map node_id (nodes wfl))"
proof -
  have "\<And>n. n \<in> set (nodes wfl) \<Longrightarrow>
      (node_id n \<in> set (map edge_target (filter (\<lambda>edge. edge_source edge = q) (edges wfl))))
        = ((q, node_id n) \<in> edgeRel wfl)"
    by (auto simp: edgeRel_def) force
  then show ?thesis
    by (simp add: getConnectedNodes_def Let_def filter_map comp_def cong: filter_cong)
qed

lemma visitOrder_disjoint: "set (visitOrder wfl V Q) \<inter> set V = {}"
proof (induction wfl V Q rule: visitOrder.induct)
  case (1 wfl visited)
  show ?case by (simp add: visitOrder.simps)
next
  case (2 wfl visited nodeId queue)
  show ?case
  proof (cases "nodeId \<in> set visited")
    case True
    with "2.IH"(1) show ?thesis by (simp add: visitOrder.simps)
  next
    case nv: False
    show ?thesis
    proof (cases "find (\<lambda>n. node_id n = nodeId) (nodes wfl)")
      case None
      with nv "2.IH"(2) show ?thesis by (auto simp: visitOrder.simps)
    next
      case (Some node)
      with nv "2.IH"(3) show ?thesis by (auto simp: visitOrder.simps)
    qed
  qed
qed

lemma visitOrder_distinct: "distinct (visitOrder wfl V Q)"
proof (induction wfl V Q rule: visitOrder.induct)
  case (1 wfl visited)
  show ?case by (simp add: visitOrder.simps)
next
  case (2 wfl visited nodeId queue)
  show ?case
  proof (cases "nodeId \<in> set visited")
    case True
    with "2.IH"(1) show ?thesis by (simp add: visitOrder.simps)
  next
    case nv: False
    show ?thesis
    proof (cases "find (\<lambda>n. node_id n = nodeId) (nodes wfl)")
      case None
      with nv "2.IH"(2) show ?thesis by (simp add: visitOrder.simps)
    next
      case (Some node)
      let ?Q = "queue @ map node_id (filter (\<lambda>n. node_id n \<notin> set (nodeId # visited)) (getConnectedNodes wfl nodeId))"
      have "nodeId \<notin> set (visitOrder wfl (nodeId # visited) ?Q)"
        using visitOrder_disjoint [of wfl "nodeId # visited" ?Q] by auto
      with nv Some "2.IH"(3) show ?thesis by (simp add: visitOrder.simps)
    qed
  qed
qed

lemma reach_split:
  assumes "(a, n) \<in> (Restr E (- V))\<^sup>*"
  shows "n = q
       \<or> (n \<noteq> q \<and> a \<noteq> q \<and> (a, n) \<in> (Restr E (- insert q V))\<^sup>*)
       \<or> (n \<noteq> q \<and> (\<exists>s. (q, s) \<in> E \<and> s \<notin> V \<and> s \<noteq> q \<and> (s, n) \<in> (Restr E (- insert q V))\<^sup>*))"
  using assms
proof (induction rule: rtrancl_induct)
  case base
  show ?case by auto
next
  case (step y z)
  from step.hyps(2) have yz: "(y, z) \<in> E" "y \<notin> V" "z \<notin> V" by auto
  show ?case
  proof (cases "z = q")
    case True
    then show ?thesis by simp
  next
    case zq: False
    show ?thesis
    proof (cases "y = q")
      case True
      with yz zq have "(q, z) \<in> E \<and> z \<notin> V \<and> z \<noteq> q \<and> (z, z) \<in> (Restr E (- insert q V))\<^sup>*"
        by simp
      with zq show ?thesis by blast
    next
      case yq: False
      with yz zq have e: "(y, z) \<in> Restr E (- insert q V)" by simp
      from step.IH yq consider
          (direct) "a \<noteq> q" "(a, y) \<in> (Restr E (- insert q V))\<^sup>*"
        | (via) s where "(q, s) \<in> E" "s \<notin> V" "s \<noteq> q" "(s, y) \<in> (Restr E (- insert q V))\<^sup>*"
        by blast
      then show ?thesis
      proof cases
        case direct
        with e have "(a, z) \<in> (Restr E (- insert q V))\<^sup>*" by (meson rtrancl.rtrancl_into_rtrancl)
        with direct(1) zq show ?thesis by simp
      next
        case via
        with e have "(s, z) \<in> (Restr E (- insert q V))\<^sup>*" by (meson rtrancl.rtrancl_into_rtrancl)
        with via zq show ?thesis by blast
      qed
    qed
  qed
qed

lemma Restr_mono_rtrancl:
  "(a, b) \<in> (Restr E (- insert q V))\<^sup>* \<Longrightarrow> (a, b) \<in> (Restr E (- V))\<^sup>*"
  by (rule rtrancl_mono [THEN subsetD, rotated]) auto


lemma visitOrder_reach:
  "set Q \<subseteq> node_id ` set (nodes wfl) \<Longrightarrow>
   set (visitOrder wfl V Q) =
     {n. \<exists>q \<in> set Q. q \<notin> set V \<and> (q, n) \<in> (Restr (edgeRel wfl) (- set V))\<^sup>*}"
proof (induction wfl V Q rule: visitOrder.induct)
  case (1 wfl visited)
  show ?case by (simp add: visitOrder.simps)
next
  case (2 wfl visited nodeId queue)
  let ?E = "edgeRel wfl"
  from "2.prems" have qs: "set queue \<subseteq> node_id ` set (nodes wfl)" and nid: "nodeId \<in> node_id ` set (nodes wfl)"
    by simp_all
  show ?case
  proof (cases "nodeId \<in> set visited")
    case True
    with "2.IH"(1) [OF True qs] show ?thesis by (auto simp: visitOrder.simps)
  next
    case nv: False
    from nid obtain node where Some: "find (\<lambda>n. node_id n = nodeId) (nodes wfl) = Some node"
      by (cases "find (\<lambda>n. node_id n = nodeId) (nodes wfl)") (auto simp: find_None_iff)
    let ?succs = "map node_id (filter (\<lambda>n. node_id n \<notin> set (nodeId # visited)) (getConnectedNodes wfl nodeId))"
    let ?V' = "insert nodeId (set visited)"
    have ss: "set ?succs = {b. (nodeId, b) \<in> ?E \<and> b \<notin> set (nodeId # visited)}"
      by (rule successors_set)
    have sub: "set (queue @ ?succs) \<subseteq> node_id ` set (nodes wfl)"
      using qs by (auto simp: getConnectedNodes_def Let_def)
    have IH: "set (visitOrder wfl (nodeId # visited) (queue @ ?succs)) =
        {n. \<exists>q \<in> set (queue @ ?succs). q \<notin> ?V' \<and> (q, n) \<in> (Restr ?E (- ?V'))\<^sup>*}"
      using "2.IH"(3) [OF nv Some sub] by simp
    have vo: "visitOrder wfl visited (nodeId # queue) = nodeId # visitOrder wfl (nodeId # visited) (queue @ ?succs)"
      using nv Some by (simp add: visitOrder.simps)
    show ?thesis
    proof (intro set_eqI iffI)
      fix n
      assume "n \<in> set (visitOrder wfl visited (nodeId # queue))"
      then consider (here) "n = nodeId"
        | (later) q where "q \<in> set (queue @ ?succs)" "q \<notin> ?V'" "(q, n) \<in> (Restr ?E (- ?V'))\<^sup>*"
        using vo IH by auto
      then show "n \<in> {n. \<exists>q \<in> set (nodeId # queue). q \<notin> set visited \<and> (q, n) \<in> (Restr ?E (- set visited))\<^sup>*}"
      proof cases
        case here
        with nv show ?thesis by auto
      next
        case later
        from later(3) have r: "(q, n) \<in> (Restr ?E (- set visited))\<^sup>*"
          by (rule Restr_mono_rtrancl)
        show ?thesis
        proof (cases "q \<in> set queue")
          case True
          with later(2) r show ?thesis by auto
        next
          case False
          with later(1) ss have "(nodeId, q) \<in> ?E" "q \<notin> set visited" by auto
          with nv have "(nodeId, q) \<in> Restr ?E (- set visited)" by simp
          with r have "(nodeId, n) \<in> (Restr ?E (- set visited))\<^sup>*"
            by (meson converse_rtrancl_into_rtrancl)
          with nv show ?thesis by auto
        qed
      qed
    next
      fix n
      assume "n \<in> {n. \<exists>q \<in> set (nodeId # queue). q \<notin> set visited \<and> (q, n) \<in> (Restr ?E (- set visited))\<^sup>*}"
      then obtain q where q: "q \<in> set (nodeId # queue)" "q \<notin> set visited"
        "(q, n) \<in> (Restr ?E (- set visited))\<^sup>*"
        by blast
      from reach_split [OF q(3), of nodeId] consider
          (here) "n = nodeId"
        | (direct) "n \<noteq> nodeId" "q \<noteq> nodeId" "(q, n) \<in> (Restr ?E (- ?V'))\<^sup>*"
        | (via) s where "n \<noteq> nodeId" "(nodeId, s) \<in> ?E" "s \<notin> set visited" "s \<noteq> nodeId"
            "(s, n) \<in> (Restr ?E (- ?V'))\<^sup>*"
        by blast
      then show "n \<in> set (visitOrder wfl visited (nodeId # queue))"
      proof cases
        case here
        with vo show ?thesis by simp
      next
        case direct
        with q have "q \<in> set (queue @ ?succs)" "q \<notin> ?V'" by auto
        with direct(3) have "n \<in> set (visitOrder wfl (nodeId # visited) (queue @ ?succs))"
          unfolding IH by blast
        with vo show ?thesis by simp
      next
        case via
        with ss have "s \<in> set (queue @ ?succs)" "s \<notin> ?V'" by auto
        with via(5) have "n \<in> set (visitOrder wfl (nodeId # visited) (queue @ ?succs))"
          unfolding IH by blast
        with vo show ?thesis by simp
      qed
    qed
  qed
qed

lemma visitOrder_reachable:
  assumes "s \<in> node_id ` set (nodes wfl)"
  shows "set (visitOrder wfl [] [s]) = {n. (s, n) \<in> (edgeRel wfl)\<^sup>*}"
proof -
  have "Restr (edgeRel wfl) (- set []) = edgeRel wfl" by auto
  with visitOrder_reach [of "[s]" wfl "[]"] assms show ?thesis by simp
qed

subsection \<open>The loop follows that order\<close>

lemma runQueue_visits:
  assumes "\<not> presentId singleNodeId" and "set queue \<subseteq> node_id ` set (nodes wfl)"
  shows "\<exists>p rest.
      snd (runQueue eng reg wfl env aliasMap singleNodeId st visited queue) = rev p @ visited
      \<and> visitOrder wfl visited queue = p @ rest
      \<and> (\<forall>st'. fst (runQueue eng reg wfl env aliasMap singleNodeId st visited queue) = Ok st'
             \<and> status (execution st') \<noteq> WCancelled \<longrightarrow> rest = [])"
  using assms
proof (induction eng reg wfl env aliasMap singleNodeId st visited queue rule: runQueue.induct)
  case (1 eng reg wfl env aliasMap singleNodeId st visited)
  show ?case by (simp add: runQueue.simps visitOrder.simps)
next
  case (2 eng reg wfl env aliasMap singleNodeId st visited nodeId queue)
  from "2.prems"(2) have qs: "set queue \<subseteq> node_id ` set (nodes wfl)"
    and nid: "nodeId \<in> node_id ` set (nodes wfl)"
    by simp_all
  show ?case
  proof (cases "aborted st")
    case True
    then have "runQueue eng reg wfl env aliasMap singleNodeId st visited (nodeId # queue)
        = (Ok (setStatus WCancelled st), visited)"
      by (simp add: runQueue.simps)
    then show ?thesis by (simp add: setStatus_def)
  next
    case na: False
    show ?thesis
    proof (cases "nodeId \<in> set visited")
      case True
      with na have "runQueue eng reg wfl env aliasMap singleNodeId st visited (nodeId # queue)
          = runQueue eng reg wfl env aliasMap singleNodeId st visited queue"
        and "visitOrder wfl visited (nodeId # queue) = visitOrder wfl visited queue"
        by (simp_all add: runQueue.simps visitOrder.simps)
      with "2.IH"(1) [OF na True "2.prems"(1) qs] show ?thesis by simp
    next
      case nv: False
      from nid obtain node where Some: "find (\<lambda>n. node_id n = nodeId) (nodes wfl) = Some node"
        by (cases "find (\<lambda>n. node_id n = nodeId) (nodes wfl)") (auto simp: find_None_iff)
      let ?Q = "queue @ map node_id (filter (\<lambda>n. node_id n \<notin> set (nodeId # visited))
                                        (getConnectedNodes wfl nodeId))"
      have vo: "visitOrder wfl visited (nodeId # queue) = nodeId # visitOrder wfl (nodeId # visited) ?Q"
        using nv Some by (simp add: visitOrder.simps)
      have q: "enqueueNext wfl singleNodeId (nodeId # visited) nodeId queue = ?Q"
        using "2.prems"(1) by (simp add: enqueueNext_def)
      have sub: "set (enqueueNext wfl singleNodeId (nodeId # visited) nodeId queue) \<subseteq> node_id ` set (nodes wfl)"
        unfolding q using qs by (auto simp: getConnectedNodes_def Let_def)
      let ?x = "executeNode eng reg wfl node st env aliasMap singleNodeId"
      show ?thesis
      proof (cases ?x)
        case (Raised e s)
        with na nv Some have rq: "runQueue eng reg wfl env aliasMap singleNodeId st visited (nodeId # queue)
            = (nodeCatch eng node e s, nodeId # visited)"
          by (simp add: runQueue.simps)
        obtain e' s' where "nodeCatch eng node e s = Raised e' s'"
          using nodeCatch_Raised by blast
        with rq vo show ?thesis
          by (intro exI [of _ "[nodeId]"] exI [of _ "visitOrder wfl (nodeId # visited) ?Q"]) simp
      next
        case (Ok s)
        with na nv Some have rq: "runQueue eng reg wfl env aliasMap singleNodeId st visited (nodeId # queue)
            = runQueue eng reg wfl env aliasMap singleNodeId s (nodeId # visited)
                (enqueueNext wfl singleNodeId (nodeId # visited) nodeId queue)"
          by (simp add: runQueue.simps)
        from "2.IH"(3) [OF na nv Some Ok "2.prems"(1) sub]
        obtain p rest where
          p: "snd (runQueue eng reg wfl env aliasMap singleNodeId s (nodeId # visited) ?Q)
                = rev p @ nodeId # visited"
          and r: "visitOrder wfl (nodeId # visited) ?Q = p @ rest"
          and c: "\<forall>st'. fst (runQueue eng reg wfl env aliasMap singleNodeId s (nodeId # visited) ?Q) = Ok st'
               \<and> status (execution st') \<noteq> WCancelled \<longrightarrow> rest = []"
          unfolding q by blast
        have "snd (runQueue eng reg wfl env aliasMap singleNodeId st visited (nodeId # queue))
                = rev (nodeId # p) @ visited"
          using p rq q by simp
        moreover have "visitOrder wfl visited (nodeId # queue) = (nodeId # p) @ rest"
          using vo r by simp
        ultimately show ?thesis
          using c rq q by (intro exI [of _ "nodeId # p"] exI [of _ rest]) simp
      qed
    qed
  qed
qed

lemma settle_success:
  assumes "status (execution (stateOf (settle eng r))) = WSuccess"
  shows "\<exists>st'. r = Ok st' \<and> status (execution st') \<noteq> WCancelled"
proof (cases r)
  case (Raised e s)
  with assms show ?thesis by (simp add: settle_Raised workflowCatch_state)
next
  case (Ok s)
  show ?thesis
  proof (cases "status (execution s) = WCancelled")
    case True
    with Ok assms show ?thesis by (simp add: settle_Ok completeRun_def)
  next
    case False
    with Ok show ?thesis by simp
  qed
qed

subsection \<open>Full runs\<close>

text \<open>
  C6, as the code has it. Take a full run on a workflow whose starter is one of its nodes,
  with or without a previous execution handed in. Once the first log line has passed,
  what the run returns is what \<open>settle\<close> makes of the loop started on the queue that holds
  the starter, with nothing visited. For that loop, started in any state: the ids it has
  visited when it is left, in the order in which it took them from the queue and called
  \<open>executeNode\<close> on them, are an initial stretch of \<open>visitOrder\<close> from the starter; when the
  run then ends with the status \<open>success\<close> they are the whole of it. \<open>visitOrder\<close> has no
  repetition, so no node is executed twice, and its elements are exactly the nodes
  reachable from the starter along edges whose target is a node. The order is the one of
  a first-in-first-out queue in which the successors of a node are enqueued in the order
  of the node list.
\<close>

theorem full_run_order:
  assumes full: "\<not> presentId (singleNodeIdOf options)"
    and valid: "starterId wfl \<in> node_id ` set (nodes wfl)"
  shows "(threw (onLog eng \<lparr>log_nodeId = None, log_message = ''Starting workflow: '' @ wf_name wfl,
                             log_level = Info\<rparr>) = None \<longrightarrow>
            executeWorkflow eng reg wfl env options =
              settle eng (fst (runQueue eng reg wfl env (buildAliasMap (nodes wfl)) (singleNodeIdOf options)
                                 (startedState eng wfl options) [] [starterId wfl])))
     \<and> (\<exists>rest. visitOrder wfl [] [starterId wfl] =
            rev (snd (runQueue eng reg wfl env aliasMap (singleNodeIdOf options) st [] [starterId wfl])) @ rest)
     \<and> (status (execution (stateOf (settle eng
            (fst (runQueue eng reg wfl env aliasMap (singleNodeIdOf options) st [] [starterId wfl])))))
          = WSuccess \<longrightarrow>
          rev (snd (runQueue eng reg wfl env aliasMap (singleNodeIdOf options) st [] [starterId wfl]))
            = visitOrder wfl [] [starterId wfl])
     \<and> distinct (visitOrder wfl [] [starterId wfl])
     \<and> set (visitOrder wfl [] [starterId wfl]) = {n. (starterId wfl, n) \<in> (edgeRel wfl)\<^sup>*}
     \<and> map node_id (getConnectedNodes wfl q)
          = filter (\<lambda>i. (q, i) \<in> edgeRel wfl) (map node_id (nodes wfl))"
proof -
  let ?sid = "singleNodeIdOf options"
  let ?r = "runQueue eng reg wfl env aliasMap ?sid st [] [starterId wfl]"
  from valid obtain startNode where
    f: "find (\<lambda>node. node_id node = starterId wfl) (nodes wfl) = Some startNode"
    by (cases "find (\<lambda>node. node_id node = starterId wfl) (nodes wfl)") (auto simp: find_None_iff)
  then have start: "node_id startNode = starterId wfl" by (auto simp: find_Some_iff)
  have run: "executeWorkflow eng reg wfl env options =
              settle eng (fst (runQueue eng reg wfl env (buildAliasMap (nodes wfl)) ?sid
                                 (startedState eng wfl options) [] [starterId wfl]))"
    if "threw (onLog eng \<lparr>log_nodeId = None, log_message = ''Starting workflow: '' @ wf_name wfl,
                             log_level = Info\<rparr>) = None"
  proof -
    have v: "validateWorkflow wfl = None"
      using f by (auto simp: validateWorkflow_def)
    have fs: "findStartNode wfl ?sid = Some startNode"
      using f full by (simp add: findStartNode_def)
    have "workflowBody eng reg wfl env options (startedState eng wfl options) =
        andThen (fst (runQueue eng reg wfl env (buildAliasMap (nodes wfl)) ?sid
                        (startedState eng wfl options) [] [node_id startNode])) (completeRun eng)"
      using full by (simp add: workflowBody_def v fs Let_def andThen_def)
    then show ?thesis
      by (simp only: executeWorkflow_started [OF that] settle_def start)
  qed
  from valid have "set [starterId wfl] \<subseteq> node_id ` set (nodes wfl)" by simp
  from runQueue_visits [OF full this, of eng reg env aliasMap st "[]"]
  obtain p rest where p: "snd ?r = rev p" and v: "visitOrder wfl [] [starterId wfl] = p @ rest"
    and c: "\<forall>st'. fst ?r = Ok st' \<and> status (execution st') \<noteq> WCancelled \<longrightarrow> rest = []"
    by auto
  have pre: "\<exists>rest. visitOrder wfl [] [starterId wfl] = rev (snd ?r) @ rest"
    using p v by simp
  have whole: "rev (snd ?r) = visitOrder wfl [] [starterId wfl]"
    if "status (execution (stateOf (settle eng (fst ?r)))) = WSuccess"
  proof -
    from settle_success [OF that] c have "rest = []" by blast
    with p v show ?thesis by simp
  qed
  from run pre whole visitOrder_distinct [of wfl "[]" "[starterId wfl]"]
    visitOrder_reachable [OF valid] successors_order [of wfl q]
  show ?thesis by blast
qed

text \<open>
  The edge to \<open>B\<close> is declared before the edge to \<open>A\<close>, the node \<open>A\<close> before the node \<open>B\<close>:
  the run succeeds and has visited \<open>S\<close>, \<open>A\<close>, \<open>B\<close>, which are the nodes reachable from \<open>S\<close>.
  In the chain of the nodes \<open>2\<close>, \<open>10\<close> and \<open>1\<close> the visits follow the chain, while the
  returned snapshot lists the records of \<open>1\<close>, \<open>2\<close> and \<open>10\<close> in that order.
\<close>

theorem full_run_order_witness:
  "\<not> presentId (singleNodeIdOf noOptions) \<and> starterId edgesReversed \<in> node_id ` set (nodes edgesReversed)
   \<and> status (execution (stateOf (executeWorkflow quietEngine exampleRegistry edgesReversed Map.empty noOptions)))
       = WSuccess
   \<and> rev (snd (runQueue quietEngine exampleRegistry edgesReversed Map.empty (buildAliasMap (nodes edgesReversed))
        (singleNodeIdOf noOptions) (startedState quietEngine edgesReversed noOptions) [] [''S'']))
       = [''S'', ''A'', ''B'']
   \<and> {n. (''S'', n) \<in> (edgeRel edgesReversed)\<^sup>*} = {''S'', ''A'', ''B''}
   \<and> rev (snd (runQueue quietEngine exampleRegistry numbered Map.empty (buildAliasMap (nodes numbered))
        (singleNodeIdOf noOptions) (startedState quietEngine numbered noOptions) [] [''2'']))
       = [''2'', ''10'', ''1'']
   \<and> map fst (nodeExecutions (execution (stateOf (executeWorkflow quietEngine exampleRegistry numbered
        Map.empty noOptions)))) = [''1'', ''2'', ''10'']"
proof -
  have full: "\<not> presentId (singleNodeIdOf noOptions)"
    by (simp add: noOptions_def singleNodeIdOf_def presentId_def)
  have s: "starterId edgesReversed = ''S''" "starterId edgesReversed \<in> node_id ` set (nodes edgesReversed)"
    by (simp_all add: edgesReversed_def mkWorkflow_def mkNode_def)
  have n: "starterId numbered = ''2''" "starterId numbered \<in> node_id ` set (nodes numbered)"
    by (simp_all add: numbered_def mkWorkflow_def mkNode_def)
  have q: "threw (onLog quietEngine \<lparr>log_nodeId = None, log_message = ''Starting workflow: '' @ wf_name w,
                             log_level = Info\<rparr>) = None" for w :: workflow
    by (simp add: quietEngine_def quiet_def)
  have ok: "status (execution (stateOf (executeWorkflow quietEngine exampleRegistry edgesReversed Map.empty noOptions)))
       = WSuccess"
    "status (execution (stateOf (executeWorkflow quietEngine exampleRegistry numbered Map.empty noOptions)))
       = WSuccess"
    by code_simp+
  have v: "visitOrder edgesReversed [] [''S''] = [''S'', ''A'', ''B'']"
    "visitOrder numbered [] [''2''] = [''2'', ''10'', ''1'']"
    by code_simp+
  have k: "map fst (nodeExecutions (execution (stateOf (executeWorkflow quietEngine exampleRegistry numbered
        Map.empty noOptions)))) = [''1'', ''2'', ''10'']"
    by code_simp
  note t = full_run_order [OF full s(2), where eng = quietEngine and reg = exampleRegistry and env = Map.empty
      and aliasMap = "buildAliasMap (nodes edgesReversed)"
      and st = "startedState quietEngine edgesReversed noOptions"]
  note u = full_run_order [OF full n(2), where eng = quietEngine and reg = exampleRegistry and env = Map.empty
      and aliasMap = "buildAliasMap (nodes numbered)"
      and st = "startedState quietEngine numbered noOptions"]
  have ok1: "status (execution (stateOf (settle quietEngine
            (fst (runQueue quietEngine exampleRegistry edgesReversed Map.empty (buildAliasMap (nodes edgesReversed))
               (singleNodeIdOf noOptions) (startedState quietEngine edgesReversed noOptions) []
               [starterId edgesReversed]))))) = WSuccess"
    using ok(1) by (simp only: t [THEN conjunct1, rule_format, OF q])
  have ok2: "status (execution (stateOf (settle quietEngine
            (fst (runQueue quietEngine exampleRegistry numbered Map.empty (buildAliasMap (nodes numbered))
               (singleNodeIdOf noOptions) (startedState quietEngine numbered noOptions) []
               [starterId numbered]))))) = WSuccess"
    using ok(2) by (simp only: u [THEN conjunct1, rule_format, OF q])
  have 1: "rev (snd (runQueue quietEngine exampleRegistry edgesReversed Map.empty (buildAliasMap (nodes edgesReversed))
        (singleNodeIdOf noOptions) (startedState quietEngine edgesReversed noOptions) [] [''S'']))
       = [''S'', ''A'', ''B'']"
    using t [THEN conjunct2, THEN conjunct2, THEN conjunct1, rule_format, OF ok1] by (simp add: s v)
  have 2: "{n. (''S'', n) \<in> (edgeRel edgesReversed)\<^sup>*} = {''S'', ''A'', ''B''}"
    using t [THEN conjunct2, THEN conjunct2, THEN conjunct2, THEN conjunct2, THEN conjunct1]
    by (simp add: s v)
  have 3: "rev (snd (runQueue quietEngine exampleRegistry numbered Map.empty (buildAliasMap (nodes numbered))
        (singleNodeIdOf noOptions) (startedState quietEngine numbered noOptions) [] [''2'']))
       = [''2'', ''10'', ''1'']"
    using u [THEN conjunct2, THEN conjunct2, THEN conjunct1, rule_format, OF ok2] by (simp add: n v)
  show ?thesis
    using full s(2) ok(1) 1 2 3 k by blast
qed

text \<open>
  C6 as stated fails twice. With the edges of \<open>S\<close> declared towards \<open>B\<close> first and \<open>A\<close>
  second, the run still visits \<open>A\<close> before \<open>B\<close>: ties follow the node list, not the edge
  list. And when \<open>A\<close> throws, \<open>B\<close>, though reachable from the starter, is never visited.
\<close>

theorem edge_order_counterexample:
  "map edge_target (filter (\<lambda>e. edge_source e = ''S'') (edges edgesReversed)) = [''B'', ''A'']
   \<and> rev (snd (runQueue quietEngine exampleRegistry edgesReversed Map.empty (buildAliasMap (nodes edgesReversed))
        (singleNodeIdOf noOptions) (startedState quietEngine edgesReversed noOptions) [] [''S'']))
       = [''S'', ''A'', ''B'']
   \<and> map_option ne_status (map_of (nodeExecutions (execution (stateOf (executeWorkflow quietEngine
        exampleRegistry edgesReversed Map.empty noOptions)))) ''B'') = Some NSuccess
   \<and> mkEdge ''S'' ''B'' \<in> set (edges failingFanOut)
   \<and> rev (snd (runQueue quietEngine exampleRegistry failingFanOut Map.empty (buildAliasMap (nodes failingFanOut))
        (singleNodeIdOf noOptions) (startedState quietEngine failingFanOut noOptions) [] [''S'']))
       = [''S'', ''A'']
   \<and> map_of (nodeExecutions (execution (stateOf (executeWorkflow quietEngine exampleRegistry failingFanOut
        Map.empty noOptions)))) ''B'' = None"
  by code_simp
end
